theory Spec2Isabelle
  imports Complex_Main "HOL-Library.Word"
begin

unbundle bit_operations_syntax

section \<open>Python values shared by both modules\<close>

text \<open>
  Exceptions are values. Each constructor is one Python exception class; the string is the
  message template of the raise site (format arguments are not rendered).
\<close>

datatype error =
    TypeError string
  | ValueError string
  | AssertionError string
  | UnicodeDecodeError
  | ZeroDivisionError
  | OverflowError
  | StructError
  | IndexError
  | KeyError
  | AttributeError
  | OSError

type_synonym byte = "8 word"
type_synonym bytes = "byte list"

section \<open>vec.py: the multiplication and division operators of Vec\<close>

text \<open>
  The float arithmetic of the Python runtime is not code of the repository: it is a
  parameter of the model. Only the checks that CPython performs before the arithmetic
  (a zero divisor raises ZeroDivisionError, an int operand is converted to float first
  and may be too large) are written out.
\<close>

record 'f float_arith =
  f_of_int :: "int \<Rightarrow> 'f option"
  f_is_zero :: "'f \<Rightarrow> bool"
  f_mul :: "'f \<Rightarrow> 'f \<Rightarrow> 'f"
  f_truediv :: "'f \<Rightarrow> 'f \<Rightarrow> 'f"
  f_floordiv :: "'f \<Rightarrow> 'f \<Rightarrow> 'f"
  f_mod :: "'f \<Rightarrow> 'f \<Rightarrow> 'f"

datatype 'f scalar = SInt int | SFloat 'f

datatype 'f vec = Vec (vx: 'f) (vy: 'f) (vz: 'f)

datatype 'f operand = OVec "'f vec" | OScalar "'f scalar"

text \<open>The four operators the template is expanded for, with their \<open>pretty\<close> names.\<close>

datatype muldiv = Mul | TrueDiv | FloorDiv | Mod

fun pretty :: "muldiv \<Rightarrow> string" where
  "pretty Mul = ''multiply''"
| "pretty TrueDiv = ''divide''"
| "pretty FloorDiv = ''floor-divide''"
| "pretty Mod = ''modulus''"

definition to_float :: "'f float_arith \<Rightarrow> 'f scalar \<Rightarrow> error + 'f" where
  "to_float F s =
     (case s of
        SFloat b \<Rightarrow> Inr b
      | SInt i \<Rightarrow> (case f_of_int F i of None \<Rightarrow> Inl OverflowError | Some b \<Rightarrow> Inr b))"

text \<open>The arithmetic of each operator.\<close>

fun f_apply :: "'f float_arith \<Rightarrow> muldiv \<Rightarrow> 'f \<Rightarrow> 'f \<Rightarrow> 'f" where
  "f_apply F Mul = f_mul F"
| "f_apply F TrueDiv = f_truediv F"
| "f_apply F FloorDiv = f_floordiv F"
| "f_apply F Mod = f_mod F"

text \<open>
  \<open>a op other\<close> for a float \<open>a\<close> and an int or float \<open>other\<close>: the three divisions
  raise ZeroDivisionError on a zero divisor.
\<close>

definition float_op :: "'f float_arith \<Rightarrow> muldiv \<Rightarrow> 'f \<Rightarrow> 'f scalar \<Rightarrow> error + 'f" where
  "float_op F opr a s =
     (case to_float F s of
        Inl e \<Rightarrow> Inl e
      | Inr b \<Rightarrow>
          if opr \<noteq> Mul \<and> f_is_zero F b then Inl ZeroDivisionError
          else Inr (f_apply F opr a b))"

text \<open>
  \<open>_VEC_MULDIV_TEMP\<close>, method \<open>__{func}__\<close>. The result \<open>None\<close> is Python's
  \<open>NotImplemented\<close>, returned when the scalar operation raises TypeError.
\<close>

definition vec_muldiv ::
  "'f float_arith \<Rightarrow> muldiv \<Rightarrow> 'f vec \<Rightarrow> 'f operand \<Rightarrow> error + 'f vec option" where
  "vec_muldiv F opr self other =
     (case other of
        OVec w \<Rightarrow> Inl (TypeError (''Cannot '' @ pretty opr @ '' 2 Vectors.''))
      | OScalar s \<Rightarrow>
          (case float_op F opr (vx self) s of
             Inl (TypeError m) \<Rightarrow> Inr None
           | Inl e \<Rightarrow> Inl e
           | Inr x \<Rightarrow>
          (case float_op F opr (vy self) s of
             Inl (TypeError m) \<Rightarrow> Inr None
           | Inl e \<Rightarrow> Inl e
           | Inr y \<Rightarrow>
          (case float_op F opr (vz self) s of
             Inl (TypeError m) \<Rightarrow> Inr None
           | Inl e \<Rightarrow> Inl e
           | Inr z \<Rightarrow> Inr (Some (Vec x y z))))))"

text \<open>\<open>divmod(a, other)\<close> on a float: the pair of the floor quotient and the remainder.\<close>

definition float_divmod :: "'f float_arith \<Rightarrow> 'f \<Rightarrow> 'f scalar \<Rightarrow> error + ('f \<times> 'f)" where
  "float_divmod F a s =
     (case to_float F s of
        Inl e \<Rightarrow> Inl e
      | Inr b \<Rightarrow>
          if f_is_zero F b then Inl ZeroDivisionError
          else Inr (f_floordiv F a b, f_mod F a b))"

text \<open>\<open>Vec.__divmod__\<close>.\<close>

definition vec_divmod ::
  "'f float_arith \<Rightarrow> 'f vec \<Rightarrow> 'f operand \<Rightarrow> error + ('f vec \<times> 'f vec) option" where
  "vec_divmod F self other =
     (case other of
        OVec w \<Rightarrow> Inl (TypeError ''Cannot divide 2 Vectors.'')
      | OScalar s \<Rightarrow>
          (case float_divmod F (vx self) s of
             Inl (TypeError m) \<Rightarrow> Inr None
           | Inl e \<Rightarrow> Inl e
           | Inr (x1, x2) \<Rightarrow>
          (case float_divmod F (vy self) s of
             Inl (TypeError m) \<Rightarrow> Inr None
           | Inl e \<Rightarrow> Inl e
           | Inr (y1, y2) \<Rightarrow>
          (case float_divmod F (vz self) s of
             Inl (TypeError m) \<Rightarrow> Inr None
           | Inl e \<Rightarrow> Inl e
           | Inr (z1, z2) \<Rightarrow> Inr (Some (Vec x1 y1 z1, Vec x2 y2 z2))))))"

text \<open>
  The binary operator as the interpreter evaluates it with a Vec on the left: the method
  is called, and \<open>NotImplemented\<close> ends in TypeError (int and float have no reflected
  method accepting a Vec).
\<close>

definition binop :: "error + 'a option \<Rightarrow> error + 'a" where
  "binop r =
     (case r of
        Inl e \<Rightarrow> Inl e
      | Inr None \<Rightarrow> Inl (TypeError ''unsupported operand type(s)'')
      | Inr (Some v) \<Rightarrow> Inr v)"

text \<open>
  An instance of the arithmetic for concrete runs: floats idealised as rationals (no
  rounding, no infinities, no NaN). Only its zero test matters where it is used.
\<close>

definition rat_arith :: "rat float_arith" where
  "rat_arith =
     \<lparr> f_of_int = (\<lambda>i. Some (of_int i)),
       f_is_zero = (\<lambda>a. a = 0),
       f_mul = (\<lambda>a b. a * b),
       f_truediv = (\<lambda>a b. a / b),
       f_floordiv = (\<lambda>a b. of_int \<lfloor>a / b\<rfloor>),
       f_mod = (\<lambda>a b. a - b * of_int \<lfloor>a / b\<rfloor>) \<rparr>"

section \<open>struct: little-endian integers\<close>

text \<open>The value of a little-endian byte string read as an unsigned integer.\<close>

fun le_nat :: "bytes \<Rightarrow> nat" where
  "le_nat [] = 0"
| "le_nat (b # bs) = unat b + 256 * le_nat bs"

text \<open>Formats \<open>H\<close>, \<open>B\<close>, \<open>I\<close>: unsigned; formats \<open>h\<close>, \<open>i\<close>: two's complement.\<close>

definition unpack_uint :: "bytes \<Rightarrow> int" where
  "unpack_uint bs = int (le_nat bs)"

definition unpack_sint :: "bytes \<Rightarrow> int" where
  "unpack_sint bs =
     (let u = int (le_nat bs); m = 2 ^ (8 * length bs)
      in if m \<le> 2 * u then u - m else u)"

fun le_bytes :: "nat \<Rightarrow> int \<Rightarrow> bytes" where
  "le_bytes 0 v = []"
| "le_bytes (Suc n) v = word_of_int v # le_bytes n (v div 256)"

text \<open>\<open>struct.pack\<close> of one integer raises \<open>struct.error\<close> when it is out of range.\<close>

definition pack_i32 :: "int \<Rightarrow> error + bytes" where
  "pack_i32 v =
     (if - 2147483648 \<le> v \<and> v < 2147483648 then Inr (le_bytes 4 v) else Inl StructError)"

definition pack_u16 :: "int \<Rightarrow> error + bytes" where
  "pack_u16 v = (if 0 \<le> v \<and> v < 65536 then Inr (le_bytes 2 v) else Inl StructError)"

text \<open>Format \<open>4s\<close>: the bytes truncated or padded with NUL to four.\<close>

definition pack_4s :: "bytes \<Rightarrow> bytes" where
  "pack_4s bs = take 4 bs @ replicate (4 - length bs) 0"

text \<open>\<open>Struct.unpack_from(data, offset)\<close> for a format of \<open>n\<close> bytes.\<close>

definition unpack_from :: "nat \<Rightarrow> bytes \<Rightarrow> nat \<Rightarrow> error + bytes" where
  "unpack_from n data off =
     (if off + n \<le> length data then Inr (take n (drop off data)) else Inl StructError)"

section \<open>bsp.py: the file object\<close>

text \<open>
  The file is its content; the position is passed along. \<open>seek\<close> to a negative offset
  raises OSError; \<open>read(n)\<close> returns what is left when fewer than \<open>n\<close> bytes remain,
  everything for \<open>n = -1\<close>, and raises ValueError below that.
\<close>

definition seek :: "int \<Rightarrow> error + nat" where
  "seek off = (if off < 0 then Inl OSError else Inr (nat off))"

definition file_read :: "bytes \<Rightarrow> nat \<Rightarrow> int \<Rightarrow> error + bytes" where
  "file_read file pos n =
     (if n < - 1 then Inl (ValueError ''read length must be non-negative or -1'')
      else if n = - 1 then Inr (drop pos file)
      else Inr (take (nat n) (drop pos file)))"

text \<open>
  Modelled from the spec: \<open>struct_read\<close> of \<open>srctools.binformat\<close> is not among the
  sources. It reads the size of the format from the file and unpacks it: the spec has
  the reader "read an 8-byte header", "64 directory entries of 16 bytes each" and "one
  more i32". A short read cannot be unpacked (\<open>struct.error\<close>). The result is the bytes
  read and the new position.
\<close>

definition struct_read :: "nat \<Rightarrow> bytes \<Rightarrow> nat \<Rightarrow> error + (bytes \<times> nat)" where
  "struct_read n file pos =
     (let d = take n (drop pos file)
      in if length d = n then Inr (d, pos + n) else Inl StructError)"

section \<open>bsp.py: the container\<close>

datatype versions =
  VER_17 | VER_18 | VER_19 | VER_20 | VER_21 | VER_22 | VER_29 | CONTAGION | DESOLATION

fun versions_value :: "versions \<Rightarrow> int" where
  "versions_value VER_17 = 17"
| "versions_value VER_18 = 18"
| "versions_value VER_19 = 19"
| "versions_value VER_20 = 20"
| "versions_value VER_21 = 21"
| "versions_value VER_22 = 22"
| "versions_value VER_29 = 29"
| "versions_value CONTAGION = 23"
| "versions_value DESOLATION = 42"

text \<open>
  The call \<open>VERSIONS(n)\<close>: the member with that value (the other names of the enumeration
  are aliases of these nine), \<open>None\<close> where Python raises ValueError.
\<close>

definition VERSIONS :: "int \<Rightarrow> versions option" where
  "VERSIONS n =
     (if n = 17 then Some VER_17 else if n = 18 then Some VER_18
      else if n = 19 then Some VER_19 else if n = 20 then Some VER_20
      else if n = 21 then Some VER_21 else if n = 22 then Some VER_22
      else if n = 29 then Some VER_29 else if n = 23 then Some CONTAGION
      else if n = 42 then Some DESOLATION else None)"

text \<open>The attribute \<open>BSP.version\<close> holds a member of VERSIONS or a plain int.\<close>

datatype bsp_version = VEnum versions | VInt int

text \<open>\<open>bsp_version == self.version\<close>: a member is equal to its integer value.\<close>

fun version_eq :: "int \<Rightarrow> bsp_version \<Rightarrow> bool" where
  "version_eq n (VEnum v) = (versions_value v = n)"
| "version_eq n (VInt m) = (n = m)"

text \<open>
  BSP_LUMPS: a lump is named by its value; iterating the enumeration gives the 64 values
  in order (aliases are skipped).
\<close>

definition ENTITIES :: nat where "ENTITIES = 0"
definition PLANES :: nat where "PLANES = 1"
definition NODES :: nat where "NODES = 5"
definition LEAFS :: nat where "LEAFS = 10"
definition GAME_LUMP :: nat where "GAME_LUMP = 35"
definition PAKFILE :: nat where "PAKFILE = 40"

definition BSP_LUMPS :: "nat list" where
  "BSP_LUMPS = [0..<64]"

definition LUMP_WRITE_ORDER :: "nat list" where
  "LUMP_WRITE_ORDER = remove1 PAKFILE BSP_LUMPS @ [PAKFILE]"

record lump =
  l_type :: nat
  l_version :: int
  l_ident :: bytes
  l_data :: bytes

definition Lump :: "nat \<Rightarrow> int \<Rightarrow> bytes \<Rightarrow> lump" where
  "Lump typ ver ident = \<lparr> l_type = typ, l_version = ver, l_ident = ident, l_data = [] \<rparr>"

record game_lump =
  g_id :: bytes
  g_flags :: int
  g_version :: int
  g_data :: bytes

text \<open>A dict keeps insertion order; assigning to a key that is present replaces in place.\<close>

fun dict_set :: "'k \<Rightarrow> 'v \<Rightarrow> ('k \<times> 'v) list \<Rightarrow> ('k \<times> 'v) list" where
  "dict_set k v [] = [(k, v)]"
| "dict_set k v (p # ps) = (if fst p = k then (k, v) # ps else p # dict_set k v ps)"

text \<open>\<open>d[k]\<close> raises KeyError when the key is missing.\<close>

definition dict_get :: "('k \<times> 'v) list \<Rightarrow> 'k \<Rightarrow> error + 'v" where
  "dict_get d k = (case map_of d k of None \<Rightarrow> Inl KeyError | Some v \<Rightarrow> Inr v)"

record bsp =
  version :: "bsp_version option"
  map_revision :: int
  lumps :: "(nat \<times> lump) list"
  game_lumps :: "(bytes \<times> game_lump) list"

definition BSP_MAGIC :: bytes where
  "BSP_MAGIC = [0x56, 0x42, 0x53, 0x50]"

subsection \<open>BSP.read\<close>

text \<open>The loop over \<open>range(LUMP_COUNT)\<close> reading the index of the lumps.\<close>

fun read_index ::
  "bytes \<Rightarrow> nat list \<Rightarrow> nat \<Rightarrow> (nat \<times> lump) list \<Rightarrow> (nat \<times> int \<times> int) list \<Rightarrow>
   error + (nat \<times> (nat \<times> lump) list \<times> (nat \<times> int \<times> int) list)" where
  "read_index file [] pos ls offs = Inr (pos, ls, offs)"
| "read_index file (index # rest) pos ls offs =
     (case struct_read 16 file pos of
        Inl e \<Rightarrow> Inl e
      | Inr (d, pos') \<Rightarrow>
          read_index file rest pos'
            (dict_set index
               (Lump index (unpack_sint (take 4 (drop 8 d))) (take 4 (drop 12 d))) ls)
            (dict_set index (unpack_sint (take 4 d), unpack_sint (take 4 (drop 4 d))) offs))"

text \<open>The loop over \<open>self.lumps.values()\<close> reading the data of each lump.\<close>

fun read_data ::
  "bytes \<Rightarrow> (nat \<times> int \<times> int) list \<Rightarrow> (nat \<times> lump) list \<Rightarrow> error + (nat \<times> lump) list" where
  "read_data file offs [] = Inr []"
| "read_data file offs ((k, l) # rest) =
     (case dict_get offs (l_type l) of
        Inl e \<Rightarrow> Inl e
      | Inr (off, len) \<Rightarrow>
     (case seek off of
        Inl e \<Rightarrow> Inl e
      | Inr p \<Rightarrow>
     (case file_read file p len of
        Inl e \<Rightarrow> Inl e
      | Inr d \<Rightarrow>
     (case read_data file offs rest of
        Inl e \<Rightarrow> Inl e
      | Inr rest' \<Rightarrow> Inr ((k, l\<lparr>l_data := d\<rparr>) # rest')))))"

text \<open>
  The loop over \<open>range(lump_count)\<close> reading the game lumps; \<open>GameLump.ST\<close> is
  \<open><4s HH ii\<close>, 16 bytes. The identifier is stored reversed.
\<close>

fun read_game_lumps ::
  "bytes \<Rightarrow> bytes \<Rightarrow> nat \<Rightarrow> nat \<Rightarrow> (bytes \<times> game_lump) list \<Rightarrow>
   error + (bytes \<times> game_lump) list" where
  "read_game_lumps file data 0 lump_offset gls = Inr gls"
| "read_game_lumps file data (Suc n) lump_offset gls =
     (case unpack_from 16 data lump_offset of
        Inl e \<Rightarrow> Inl e
      | Inr d \<Rightarrow>
     (case seek (unpack_sint (take 4 (drop 8 d))) of
        Inl e \<Rightarrow> Inl e
      | Inr p \<Rightarrow>
     (let game_lump_id = rev (take 4 d) in
      case file_read file p (unpack_sint (take 4 (drop 12 d))) of
        Inl e \<Rightarrow> Inl e
      | Inr gd \<Rightarrow>
          read_game_lumps file data n (lump_offset + 16)
            (dict_set game_lump_id
               \<lparr> g_id = game_lump_id,
                 g_flags = unpack_uint (take 2 (drop 4 d)),
                 g_version = unpack_uint (take 2 (drop 6 d)),
                 g_data = gd \<rparr> gls))))"

text \<open>
  \<open>BSP.read\<close> on a file with the given content, for a BSP constructed with the given
  \<open>version\<close> argument. The result is the object after the call.
\<close>

definition read :: "bsp_version option \<Rightarrow> bytes \<Rightarrow> error + bsp" where
  "read ver file =
     (case struct_read 8 file 0 of
        Inl e \<Rightarrow> Inl e
      | Inr (h, pos) \<Rightarrow>
     (let magic_name = take 4 h; bsp_version = unpack_sint (drop 4 h) in
      if magic_name \<noteq> BSP_MAGIC then Inl (AssertionError ''Not a BSP file!'')
      else
     (case (case ver of
              None \<Rightarrow>
                (case VERSIONS bsp_version of
                   Some v \<Rightarrow> Inr (VEnum v)
                 | None \<Rightarrow> Inr (VInt bsp_version))
            | Some v \<Rightarrow>
                if version_eq bsp_version v then Inr v
                else Inl (AssertionError ''Different BSP version!'')) of
        Inl e \<Rightarrow> Inl e
      | Inr ver' \<Rightarrow>
     (case read_index file BSP_LUMPS pos [] [] of
        Inl e \<Rightarrow> Inl e
      | Inr (pos', ls, lump_offsets) \<Rightarrow>
     (case struct_read 4 file pos' of
        Inl e \<Rightarrow> Inl e
      | Inr (r, pos'') \<Rightarrow>
     (case read_data file lump_offsets ls of
        Inl e \<Rightarrow> Inl e
      | Inr ls' \<Rightarrow>
     (case dict_get ls' GAME_LUMP of
        Inl e \<Rightarrow> Inl e
      | Inr game_lump \<Rightarrow>
     (case unpack_from 4 (l_data game_lump) 0 of
        Inl e \<Rightarrow> Inl e
      | Inr c \<Rightarrow>
     (case read_game_lumps file (l_data game_lump) (nat (unpack_sint c)) 4 [] of
        Inl e \<Rightarrow> Inl e
      | Inr gls \<Rightarrow>
          Inr \<lparr> version = Some ver',
                map_revision = unpack_sint r,
                lumps = dict_set GAME_LUMP (game_lump\<lparr>l_data := []\<rparr>) ls',
                game_lumps = gls \<rparr>)))))))))"

subsection \<open>BSP.save\<close>

text \<open>
  Modelled from the spec: \<open>DeferredWrites\<close> of \<open>srctools.binformat\<close> is not among the
  sources. The spec: the helper "records: at absolute position p in the stream, write
  this little-endian pattern later. Call sites tag each deferral with an opaque key; a
  single set_data(key, values) call provides the actual values and the helper rewrites
  those positions at the end." A key is a lump or the identifier of a game lump; every
  pattern used is a row of \<open>i\<close> fields, so a format is the number of its fields.
\<close>

datatype defer_key = KLump nat | KGame bytes

record writer =
  out :: bytes
  d_loc :: "(defer_key \<times> nat \<times> nat) list"
  d_data :: "(defer_key \<times> bytes) list"

text \<open>\<open>file.write(data)\<close>: the writes of \<open>save\<close> before the end are all at the end.\<close>

definition file_write :: "bytes \<Rightarrow> writer \<Rightarrow> writer" where
  "file_write data w = w\<lparr>out := out w @ data\<rparr>"

text \<open>\<open>file.tell()\<close>.\<close>

definition tell :: "writer \<Rightarrow> nat" where
  "tell w = length (out w)"

text \<open>\<open>defer.defer(key, fmt, write)\<close>: \<open>write\<close> emits placeholder bytes.\<close>

definition defer_key_at :: "defer_key \<Rightarrow> nat \<Rightarrow> bool \<Rightarrow> writer \<Rightarrow> writer" where
  "defer_key_at key fmt wr w =
     (let w' = w\<lparr>d_loc := dict_set key (tell w, fmt) (d_loc w)\<rparr>
      in if wr then file_write (replicate (4 * fmt) 0) w' else w')"

fun pack_i32s :: "int list \<Rightarrow> error + bytes" where
  "pack_i32s [] = Inr []"
| "pack_i32s (v # vs) =
     (case pack_i32 v of
        Inl e \<Rightarrow> Inl e
      | Inr b \<Rightarrow> (case pack_i32s vs of Inl e \<Rightarrow> Inl e | Inr bs \<Rightarrow> Inr (b @ bs)))"

definition set_data :: "defer_key \<Rightarrow> int list \<Rightarrow> writer \<Rightarrow> error + writer" where
  "set_data key vals w =
     (case dict_get (d_loc w) key of
        Inl e \<Rightarrow> Inl e
      | Inr (off, fmt) \<Rightarrow>
          if length vals \<noteq> fmt then Inl StructError
          else (case pack_i32s vals of
                  Inl e \<Rightarrow> Inl e
                | Inr b \<Rightarrow> Inr (w\<lparr>d_data := dict_set key b (d_data w)\<rparr>)))"

text \<open>Overwriting a file at a position.\<close>

definition write_at :: "nat \<Rightarrow> bytes \<Rightarrow> bytes \<Rightarrow> bytes" where
  "write_at off data buf =
     take off buf @ replicate (off - length buf) 0 @ data @ drop (off + length data) buf"

text \<open>\<open>defer.write()\<close>: every deferral needs its data.\<close>

fun defer_write ::
  "(defer_key \<times> nat \<times> nat) list \<Rightarrow> (defer_key \<times> bytes) list \<Rightarrow> bytes \<Rightarrow> error + bytes" where
  "defer_write [] dat buf = Inr buf"
| "defer_write ((key, off, fmt) # rest) dat buf =
     (case map_of dat key of
        None \<Rightarrow> Inl (ValueError ''No data for key'')
      | Some b \<Rightarrow> defer_write rest dat (write_at off b buf))"

text \<open>The loop over \<open>BSP_LUMPS\<close> writing the headers.\<close>

fun write_headers :: "(nat \<times> lump) list \<Rightarrow> nat list \<Rightarrow> writer \<Rightarrow> error + writer" where
  "write_headers ls [] w = Inr w"
| "write_headers ls (lump_name # rest) w =
     (case dict_get ls lump_name of
        Inl e \<Rightarrow> Inl e
      | Inr l \<Rightarrow>
     (case pack_i32 (l_version l) of
        Inl e \<Rightarrow> Inl e
      | Inr v \<Rightarrow>
          write_headers ls rest
            (file_write (replicate 8 0 @ v @ pack_4s (l_ident l))
               (defer_key_at (KLump lump_name) 2 False w))))"

text \<open>The first loop over the game lumps: the directory.\<close>

fun write_game_dir :: "game_lump list \<Rightarrow> writer \<Rightarrow> error + writer" where
  "write_game_dir [] w = Inr w"
| "write_game_dir (g # rest) w =
     (case pack_u16 (g_flags g) of
        Inl e \<Rightarrow> Inl e
      | Inr f \<Rightarrow>
     (case pack_u16 (g_version g) of
        Inl e \<Rightarrow> Inl e
      | Inr v \<Rightarrow>
     (case pack_i32 (int (length (g_data g))) of
        Inl e \<Rightarrow> Inl e
      | Inr n \<Rightarrow>
          write_game_dir rest
            (file_write n
               (defer_key_at (KGame (g_id g)) 1 True
                  (file_write (pack_4s (rev (g_id g)) @ f @ v) w))))))"

text \<open>The second loop over the game lumps: the data.\<close>

fun write_game_data :: "game_lump list \<Rightarrow> writer \<Rightarrow> error + writer" where
  "write_game_data [] w = Inr w"
| "write_game_data (g # rest) w =
     (case set_data (KGame (g_id g)) [int (tell w)] w of
        Inl e \<Rightarrow> Inl e
      | Inr w' \<Rightarrow> write_game_data rest (file_write (g_data g) w'))"

text \<open>The loop over \<open>LUMP_WRITE_ORDER\<close> writing each lump.\<close>

fun write_lumps ::
  "(nat \<times> lump) list \<Rightarrow> game_lump list \<Rightarrow> nat list \<Rightarrow> writer \<Rightarrow> error + writer" where
  "write_lumps ls gls [] w = Inr w"
| "write_lumps ls gls (lump_name # rest) w =
     (case dict_get ls lump_name of
        Inl e \<Rightarrow> Inl e
      | Inr l \<Rightarrow>
          if lump_name = GAME_LUMP then
            (let lump_start = tell w in
             case pack_i32 (int (length gls)) of
               Inl e \<Rightarrow> Inl e
             | Inr c \<Rightarrow>
            (case write_game_dir gls (file_write c w) of
               Inl e \<Rightarrow> Inl e
             | Inr w1 \<Rightarrow>
            (case write_game_data gls w1 of
               Inl e \<Rightarrow> Inl e
             | Inr w2 \<Rightarrow>
            (case set_data (KLump lump_name)
                    [int lump_start, int (tell w2) - int lump_start] w2 of
               Inl e \<Rightarrow> Inl e
             | Inr w3 \<Rightarrow> write_lumps ls gls rest w3))))
          else
            (case set_data (KLump lump_name) [int (tell w), int (length (l_data l))] w of
               Inl e \<Rightarrow> Inl e
             | Inr w' \<Rightarrow> write_lumps ls gls rest (file_write (l_data l) w')))"

text \<open>\<open>BSP.save\<close>: the content of the file written.\<close>

definition save :: "bsp \<Rightarrow> error + bytes" where
  "save b =
     (let game_lumps = map snd (game_lumps b) in
      case (case version b of
              None \<Rightarrow> Inl StructError
            | Some (VEnum v) \<Rightarrow> pack_i32 (versions_value v)
            | Some (VInt n) \<Rightarrow> pack_i32 n) of
        Inl e \<Rightarrow> Inl e
      | Inr v \<Rightarrow>
     (case write_headers (lumps b) BSP_LUMPS
             \<lparr> out = BSP_MAGIC @ v, d_loc = [], d_data = [] \<rparr> of
        Inl e \<Rightarrow> Inl e
      | Inr w1 \<Rightarrow>
     (case pack_i32 (map_revision b) of
        Inl e \<Rightarrow> Inl e
      | Inr r \<Rightarrow>
     (case write_lumps (lumps b) game_lumps LUMP_WRITE_ORDER (file_write r w1) of
        Inl e \<Rightarrow> Inl e
      | Inr w2 \<Rightarrow> defer_write (d_loc w2) (d_data w2) (out w2)))))"

section \<open>bsp.py: the entity lump\<close>

text \<open>\<open>bytes.splitlines()\<close>: lines end at LF, CR or CR LF; no empty last line.\<close>

fun split_lines :: "bool \<Rightarrow> bytes \<Rightarrow> bytes \<Rightarrow> bytes list" where
  "split_lines cr acc [] = (if acc = [] then [] else [acc])"
| "split_lines cr acc (c # cs) =
     (if cr \<and> c = 0x0A then split_lines False acc cs
      else if c = 0x0A \<or> c = 0x0D then acc # split_lines (c = 0x0D) [] cs
      else split_lines False (acc @ [c]) cs)"

definition splitlines :: "bytes \<Rightarrow> bytes list" where
  "splitlines data = split_lines False [] data"

text \<open>\<open>line.split(b'" "', maxsplit)\<close>: the separator is quote, space, quote.\<close>

fun split_kv :: "nat \<Rightarrow> bytes \<Rightarrow> bytes \<Rightarrow> bytes list" where
  "split_kv 0 acc rest = [acc @ rest]"
| "split_kv (Suc n) acc (a # b # c # cs) =
     (if a = 0x22 \<and> b = 0x20 \<and> c = 0x22 then acc # split_kv n [] cs
      else split_kv (Suc n) (acc @ [a]) (b # c # cs))"
| "split_kv (Suc n) acc rest = [acc @ rest]"

text \<open>\<open>.replace(br'\"', b'"')\<close>: backslash, quote becomes quote.\<close>

fun unescape :: "bytes \<Rightarrow> bytes" where
  "unescape (a # b # cs) =
     (if a = 0x5C \<and> b = 0x22 then 0x22 # unescape cs else a # unescape (b # cs))"
| "unescape cs = cs"

text \<open>\<open>.decode('ascii')\<close>: a str of ASCII characters.\<close>

definition decode_ascii :: "bytes \<Rightarrow> error + string" where
  "decode_ascii bs =
     (if list_all (\<lambda>b. b < 0x80) bs then Inr (map (\<lambda>b. char_of (unat b)) bs)
      else Inl UnicodeDecodeError)"

text \<open>
  Modelled from the spec: \<open>VMF\<close>, \<open>Entity\<close>, \<open>Output\<close> and \<open>Property\<close> of the modules
  \<open>srctools.vmf\<close> and \<open>srctools.property_parser\<close>, and \<open>conv_int\<close>, are not among the
  sources. From the spec: an entity holds plain key/value pairs and outputs ("each
  entity's body is key/value lines followed by output lines"); "the first opened entity
  becomes the world spawn; subsequent entities are appended in order". The keys are a
  dict (a missing key reads as the empty string). \<open>Output.parse\<close> and \<open>conv_int\<close> are
  parameters: the first returns an output or raises.
\<close>

record 'o entity =
  e_keys :: "(string \<times> string) list"
  e_outputs :: "'o list"

record 'o vmf =
  spawn :: "'o entity"
  entities :: "'o entity list"
  map_ver :: int

record 'o ent_lib =
  Output_parse :: "string \<Rightarrow> string \<Rightarrow> error + 'o"
  conv_int :: "string \<Rightarrow> int \<Rightarrow> int"

definition Entity :: "'o entity" where
  "Entity = \<lparr> e_keys = [], e_outputs = [] \<rparr>"

definition VMF :: "'o vmf" where
  "VMF = \<lparr> spawn = Entity, entities = [], map_ver = 0 \<rparr>"

definition ent_get :: "'o entity \<Rightarrow> string \<Rightarrow> string" where
  "ent_get e k = (case map_of (e_keys e) k of None \<Rightarrow> [] | Some v \<Rightarrow> v)"

definition ent_set :: "string \<Rightarrow> string \<Rightarrow> 'o entity \<Rightarrow> 'o entity" where
  "ent_set k v e = e\<lparr>e_keys := dict_set k v (e_keys e)\<rparr>"

definition add_out :: "'o \<Rightarrow> 'o entity \<Rightarrow> 'o entity" where
  "add_out outp e = e\<lparr>e_outputs := e_outputs e @ [outp]\<rparr>"

text \<open>
  The end of the loop body of \<open>read_ent_data\<close>: one key/value line, stored in the
  current entity as a plain pair or as an output.
\<close>

definition ent_keyvalue :: "'o ent_lib \<Rightarrow> bytes \<Rightarrow> 'o entity \<Rightarrow> error + 'o entity" where
  "ent_keyvalue L line cur_ent =
     (case split_kv 2 [] line of
        [key, val] \<Rightarrow>
          (case decode_ascii (drop 1 key) of
             Inl e \<Rightarrow> Inl e
           | Inr decoded_key \<Rightarrow>
          (case decode_ascii (unescape (butlast val)) of
             Inl e \<Rightarrow> Inl e
           | Inr decoded_value \<Rightarrow>
               if 27 \<in> set val then
                 (case Output_parse L decoded_key decoded_value of
                    Inl e \<Rightarrow> Inl e
                  | Inr outp \<Rightarrow> Inr (add_out outp cur_ent))
               else if count_list val 0x2C = 4 then
                 (case Output_parse L decoded_key decoded_value of
                    Inl (ValueError m) \<Rightarrow> Inr (ent_set decoded_key decoded_value cur_ent)
                  | Inl e \<Rightarrow> Inl e
                  | Inr outp \<Rightarrow> Inr (add_out outp cur_ent))
               else Inr (ent_set decoded_key decoded_value cur_ent)))
      | _ \<Rightarrow> Inl (ValueError ''unpack''))"

text \<open>
  \<open>cur_ent\<close>: \<open>None\<close> between brackets, the spawn entity of the VMF itself, or a new
  entity not yet added.
\<close>

datatype 'o cur_ent = NoEnt | SpawnEnt | NewEnt "'o entity"

text \<open>
  The body of the loop of \<open>read_ent_data\<close> for one line: it raises or returns, or goes
  on to the next line with the VMF, \<open>cur_ent\<close> and \<open>seen_spawn\<close> as they are then.
\<close>

datatype 'o control = Return "error + 'o vmf" | Next "'o vmf" "'o cur_ent" bool

definition ent_line ::
  "'o ent_lib \<Rightarrow> bytes \<Rightarrow> 'o vmf \<Rightarrow> 'o cur_ent \<Rightarrow> bool \<Rightarrow> 'o control" where
  "ent_line L line vmf cur seen_spawn =
     (if line = [0x7B] then
        (case cur of
           NoEnt \<Rightarrow>
             if \<not> seen_spawn then Next vmf SpawnEnt True
             else Next vmf (NewEnt Entity) seen_spawn
         | _ \<Rightarrow> Return (Inl (ValueError ''2 levels of nesting after {} ents'')))
      else if line = [0x7D] then
        (case cur of
           NoEnt \<Rightarrow> Return (Inl (ValueError ''Too many closing brackets after {} ents!''))
         | SpawnEnt \<Rightarrow>
             if ent_get (spawn vmf) ''classname'' \<noteq> ''worldspawn''
             then Return (Inl (ValueError ''No worldspawn entity!''))
             else Next vmf NoEnt seen_spawn
         | NewEnt e \<Rightarrow> Next (vmf\<lparr>entities := entities vmf @ [e]\<rparr>) NoEnt seen_spawn)
      else if line = [0x00] then
        (case cur of
           NoEnt \<Rightarrow> Return (Inr vmf)
         | _ \<Rightarrow> Return (Inl (ValueError ''Last entity didn't end!'')))
      else
        (case cur of
           NoEnt \<Rightarrow> Return (Inl (ValueError ''Keyvalue outside brackets!''))
         | SpawnEnt \<Rightarrow>
             (case ent_keyvalue L line (spawn vmf) of
                Inl e \<Rightarrow> Return (Inl e)
              | Inr e' \<Rightarrow> Next (vmf\<lparr>spawn := e'\<rparr>) SpawnEnt seen_spawn)
         | NewEnt e \<Rightarrow>
             (case ent_keyvalue L line e of
                Inl e \<Rightarrow> Return (Inl e)
              | Inr e' \<Rightarrow> Next vmf (NewEnt e') seen_spawn)))"

text \<open>The loop of \<open>read_ent_data\<close> over the lines, and what follows it.\<close>

fun ent_lines ::
  "'o ent_lib \<Rightarrow> bytes list \<Rightarrow> 'o vmf \<Rightarrow> 'o cur_ent \<Rightarrow> bool \<Rightarrow> error + 'o vmf" where
  "ent_lines L [] vmf cur seen_spawn =
     Inr (vmf\<lparr>map_ver := conv_int L (ent_get (spawn vmf) ''mapversion'') (map_ver vmf)\<rparr>)"
| "ent_lines L (line # rest) vmf cur seen_spawn =
     (case ent_line L line vmf cur seen_spawn of
        Return r \<Rightarrow> r
      | Next vmf' cur' seen_spawn' \<Rightarrow> ent_lines L rest vmf' cur' seen_spawn')"

text \<open>\<open>BSP.read_ent_data\<close> applied to the data of the ENTITIES lump.\<close>

definition read_ent_data :: "'o ent_lib \<Rightarrow> bytes \<Rightarrow> error + 'o vmf" where
  "read_ent_data L ent_data = ent_lines L (splitlines ent_data) VMF NoEnt False"

text \<open>An instance of the parameters for concrete runs: no value parses as an output.\<close>

definition no_outputs :: "unit ent_lib" where
  "no_outputs =
     \<lparr> Output_parse = (\<lambda>k v. Inl (ValueError ''not an output'')),
       conv_int = (\<lambda>s d. d) \<rparr>"

section \<open>bsp.py: the gate of the static props\<close>

definition sprp :: bytes where
  "sprp = [0x73, 0x70, 0x72, 0x70]"

text \<open>
  \<open>BSP.static_props\<close> up to the decoding of the lump. The parameter \<open>decode\<close> stands
  for the rest of the generator body, which reads the lump at the given version; what
  it does, failures included, is its result.
\<close>

definition static_props :: "(int \<Rightarrow> bytes \<Rightarrow> 'r) \<Rightarrow> bsp \<Rightarrow> error + 'r" where
  "static_props decode b =
     (case map_of (game_lumps b) sprp of
        None \<Rightarrow> Inl (ValueError ''No static prop lump!'')
      | Some g \<Rightarrow>
          if g_version g > 11 then Inl (ValueError ''Unknown version ({})!'')
          else if g_version g < 4 then Inl (ValueError ''Static prop version {} is too old!'')
          else Inr (decode (g_version g) (g_data g)))"

section \<open>bsp.py: the visibility tree\<close>

text \<open>
  No arithmetic is done on the floats of the tree: a float is named by where it comes
  from, the four bytes of an \<open>f\<close> field or an integer converted by \<open>Vec\<close>.
\<close>

datatype pyfloat = Float32 bytes | FloatOfInt int

text \<open>\<open>xs[i]\<close>: a negative index counts from the end; out of range raises IndexError.\<close>

definition py_index :: "'a list \<Rightarrow> int \<Rightarrow> error + 'a" where
  "py_index xs i =
     (if 0 \<le> i \<and> i < int (length xs) then Inr (xs ! nat i)
      else if i < 0 \<and> - int (length xs) \<le> i then Inr (xs ! nat (int (length xs) + i))
      else Inl IndexError)"

text \<open>The records of \<open>n\<close> bytes that \<open>struct.iter_unpack\<close> cuts the data into.\<close>

fun chunks :: "nat \<Rightarrow> nat \<Rightarrow> bytes \<Rightarrow> bytes list" where
  "chunks 0 n data = []"
| "chunks (Suc k) n data = take n data # chunks k n (drop n data)"

definition iter_unpack :: "nat \<Rightarrow> bytes \<Rightarrow> error + bytes list" where
  "iter_unpack n data =
     (if length data mod n \<noteq> 0 then Inl StructError
      else Inr (chunks (length data div n) n data))"

text \<open>A field of a record: \<open>n\<close> bytes at an offset.\<close>

definition field :: "nat \<Rightarrow> nat \<Rightarrow> bytes \<Rightarrow> bytes" where
  "field off n r = take n (drop off r)"

text \<open>\<open>Vec(a, b, c)\<close> of three \<open>h\<close> fields starting at an offset.\<close>

definition vec_h :: "nat \<Rightarrow> bytes \<Rightarrow> pyfloat vec" where
  "vec_h off r =
     Vec (FloatOfInt (unpack_sint (field off 2 r)))
         (FloatOfInt (unpack_sint (field (off + 2) 2 r)))
         (FloatOfInt (unpack_sint (field (off + 4) 2 r)))"

record visleaf =
  leaf_id :: int
  area :: int
  flags :: int
  leaf_mins :: "pyfloat vec"
  leaf_maxes :: "pyfloat vec"
  first_face :: int
  face_count :: int
  first_brush :: int
  brush_count :: int
  water_id :: int

text \<open>\<open>VisLeaf.__init__\<close>.\<close>

definition VisLeaf ::
  "int \<Rightarrow> int \<Rightarrow> pyfloat vec \<Rightarrow> pyfloat vec \<Rightarrow> int \<Rightarrow> int \<Rightarrow> int \<Rightarrow> int \<Rightarrow> int \<Rightarrow> visleaf" where
  "VisLeaf leaf_id' area_and_flags mins maxes first_face' face_count' first_brush'
     brush_count' water_id' =
     \<lparr> leaf_id = leaf_id',
       area = area_and_flags AND 0xFF80,
       flags = area_and_flags AND 0x7F,
       leaf_mins = mins,
       leaf_maxes = maxes,
       first_face = first_face',
       face_count = face_count',
       first_brush = first_brush',
       brush_count = brush_count',
       water_id = water_id' \<rparr>"

text \<open>
  A child of a node is a reference to a leaf or to a node object. The objects live in
  the two arrays built by \<open>vis_tree\<close>, so a reference is the array and the index.
\<close>

datatype child = ChildLeaf nat | ChildNode nat

record vistree =
  plane_norm :: "pyfloat vec"
  plane_dist :: pyfloat
  mins :: "pyfloat vec"
  maxes :: "pyfloat vec"
  child_neg :: "child option"
  child_pos :: "child option"

text \<open>\<open>VisTree.__init__\<close>: the children are \<open>None\<close> until linked.\<close>

definition VisTree :: "pyfloat vec \<Rightarrow> pyfloat \<Rightarrow> pyfloat vec \<Rightarrow> pyfloat vec \<Rightarrow> vistree" where
  "VisTree norm' dist' mins' maxes' =
     \<lparr> plane_norm = norm', plane_dist = dist', mins = mins', maxes = maxes',
       child_neg = None, child_pos = None \<rparr>"

text \<open>The loop over the PLANES records, format \<open><ffffi\<close>.\<close>

definition plane_of :: "bytes \<Rightarrow> pyfloat vec \<times> pyfloat" where
  "plane_of r =
     (Vec (Float32 (field 0 4 r)) (Float32 (field 4 4 r)) (Float32 (field 8 4 r)),
      Float32 (field 12 4 r))"

text \<open>The loop over the NODES records, format \<open><iii6hHHh2x\<close>.\<close>

fun read_nodes ::
  "(pyfloat vec \<times> pyfloat) list \<Rightarrow> bytes list \<Rightarrow> error + (vistree \<times> int \<times> int) list" where
  "read_nodes planes [] = Inr []"
| "read_nodes planes (r # rs) =
     (case py_index planes (unpack_sint (field 0 4 r)) of
        Inl e \<Rightarrow> Inl e
      | Inr (plane_norm', plane_dist') \<Rightarrow>
     (case read_nodes planes rs of
        Inl e \<Rightarrow> Inl e
      | Inr ns \<Rightarrow>
          Inr ((VisTree plane_norm' plane_dist' (vec_h 12 r) (vec_h 18 r),
                unpack_sint (field 4 4 r), unpack_sint (field 8 4 r)) # ns)))"

text \<open>The leaf built from one LEAFS record, format \<open><ihh6h4Hh2x\<close>.\<close>

definition leaf_of :: "int \<Rightarrow> bytes \<Rightarrow> visleaf" where
  "leaf_of i r =
     VisLeaf i (unpack_sint (field 6 2 r)) (vec_h 8 r) (vec_h 14 r)
       (unpack_uint (field 20 2 r)) (unpack_uint (field 22 2 r))
       (unpack_uint (field 24 2 r)) (unpack_uint (field 26 2 r))
       (unpack_sint (field 28 2 r))"

text \<open>The loop over the LEAFS records, numbered from \<open>i\<close>.\<close>

fun read_leafs :: "int \<Rightarrow> bytes list \<Rightarrow> visleaf list" where
  "read_leafs i [] = []"
| "read_leafs i (r # rs) = leaf_of i r # read_leafs (i + 1) rs"

text \<open>The size of \<open>leaf_fmt\<close>: 26 more bytes up to version 19.\<close>

definition leaf_size :: "int \<Rightarrow> nat" where
  "leaf_size ver = (if ver \<le> 19 then 58 else 32)"

text \<open>
  One child index of a node: \<open>leafs[-1 - ind]\<close> when negative, \<open>nodes[ind][0]\<close>
  otherwise.
\<close>

definition link_child :: "nat \<Rightarrow> nat \<Rightarrow> int \<Rightarrow> error + child" where
  "link_child n_nodes n_leafs ind =
     (if ind < 0 then
        (if - 1 - ind < int n_leafs then Inr (ChildLeaf (nat (- 1 - ind))) else Inl IndexError)
      else
        (if ind < int n_nodes then Inr (ChildNode (nat ind)) else Inl IndexError))"

text \<open>The loop linking the children of every node.\<close>

fun link_nodes :: "nat \<Rightarrow> nat \<Rightarrow> (vistree \<times> int \<times> int) list \<Rightarrow> error + vistree list" where
  "link_nodes n_nodes n_leafs [] = Inr []"
| "link_nodes n_nodes n_leafs ((node, neg_ind, pos_ind) # rest) =
     (case link_child n_nodes n_leafs neg_ind of
        Inl e \<Rightarrow> Inl e
      | Inr cn \<Rightarrow>
     (case link_child n_nodes n_leafs pos_ind of
        Inl e \<Rightarrow> Inl e
      | Inr cp \<Rightarrow>
     (case link_nodes n_nodes n_leafs rest of
        Inl e \<Rightarrow> Inl e
      | Inr ns \<Rightarrow> Inr (node\<lparr>child_neg := Some cn, child_pos := Some cp\<rparr> # ns))))"

text \<open>\<open>self.version.value\<close>: only a member of VERSIONS has the attribute.\<close>

definition version_value :: "bsp_version option \<Rightarrow> error + int" where
  "version_value v =
     (case v of Some (VEnum m) \<Rightarrow> Inr (versions_value m) | _ \<Rightarrow> Inl AttributeError)"

text \<open>
  The result of \<open>vis_tree\<close>: the node returned, as its index, with the arrays of node
  and leaf objects that the references of the tree point into.
\<close>

record vis_result =
  root :: nat
  tree_nodes :: "vistree list"
  tree_leafs :: "visleaf list"

text \<open>\<open>BSP.vis_tree\<close>.\<close>

definition vis_tree :: "bsp \<Rightarrow> error + vis_result" where
  "vis_tree b =
     (case dict_get (lumps b) PLANES of
        Inl e \<Rightarrow> Inl e
      | Inr pl \<Rightarrow>
     (case iter_unpack 20 (l_data pl) of
        Inl e \<Rightarrow> Inl e
      | Inr prs \<Rightarrow>
     (let planes = map plane_of prs in
      case dict_get (lumps b) NODES of
        Inl e \<Rightarrow> Inl e
      | Inr nl \<Rightarrow>
     (case iter_unpack 32 (l_data nl) of
        Inl e \<Rightarrow> Inl e
      | Inr nrs \<Rightarrow>
     (case read_nodes planes nrs of
        Inl e \<Rightarrow> Inl e
      | Inr nodes \<Rightarrow>
     (case version_value (version b) of
        Inl e \<Rightarrow> Inl e
      | Inr ver \<Rightarrow>
     (case dict_get (lumps b) LEAFS of
        Inl e \<Rightarrow> Inl e
      | Inr ll \<Rightarrow>
     (case iter_unpack (leaf_size ver) (l_data ll) of
        Inl e \<Rightarrow> Inl e
      | Inr lrs \<Rightarrow>
     (let leafs = read_leafs 0 lrs in
      case link_nodes (length nodes) (length leafs) nodes of
        Inl e \<Rightarrow> Inl e
      | Inr linked \<Rightarrow>
          if linked = [] then Inl IndexError
          else Inr \<lparr> root = 0, tree_nodes = linked, tree_leafs = leafs \<rparr>)))))))))"

section \<open>Concrete inputs\<close>

text \<open>
  A BSP of version 20 holding one plane, two nodes and two leaves. The child indices
  of node 0 are -1 and 1, those of node 1 are -2 and -1; all other fields are zero.
\<close>

definition tree_nodes_data :: bytes where
  "tree_nodes_data =
     [0, 0, 0, 0, 0xFF, 0xFF, 0xFF, 0xFF, 1, 0, 0, 0] @ replicate 20 0
     @ [0, 0, 0, 0, 0xFE, 0xFF, 0xFF, 0xFF, 0xFF, 0xFF, 0xFF, 0xFF] @ replicate 20 0"

definition tree_bsp :: bsp where
  "tree_bsp =
     \<lparr> version = Some (VEnum VER_20), map_revision = 0,
       lumps = [(PLANES, \<lparr> l_type = PLANES, l_version = 0, l_ident = [0, 0, 0, 0],
                           l_data = replicate 20 0 \<rparr>),
                (NODES, \<lparr> l_type = NODES, l_version = 0, l_ident = [0, 0, 0, 0],
                          l_data = tree_nodes_data \<rparr>),
                (LEAFS, \<lparr> l_type = LEAFS, l_version = 0, l_ident = [0, 0, 0, 0],
                          l_data = replicate 64 0 \<rparr>)],
       game_lumps = [] \<rparr>"

text \<open>
  The key/value line \<open>"OnUse" "a\x1db\x1dc\x1d0\x1d-1"\<close>: an output whose five
  fields are separated by the byte 0x1D.
\<close>

definition out_line :: bytes where
  "out_line = [0x22, 0x4F, 0x6E, 0x55, 0x73, 0x65, 0x22, 0x20, 0x22,
               0x61, 0x1D, 0x62, 0x1D, 0x63, 0x1D, 0x30, 0x1D, 0x2D, 0x31, 0x22]"

text \<open>
  The entity lump \<open>{\n"classname" "worldspawn"\n}\n\<close>, without a terminator, and the
  VMF that \<open>read_ent_data\<close> has built when the lines of it are read.
\<close>

definition ws_lump :: bytes where
  "ws_lump =
     [0x7B, 0x0A,
      0x22, 0x63, 0x6C, 0x61, 0x73, 0x73, 0x6E, 0x61, 0x6D, 0x65, 0x22, 0x20,
      0x22, 0x77, 0x6F, 0x72, 0x6C, 0x64, 0x73, 0x70, 0x61, 0x77, 0x6E, 0x22, 0x0A,
      0x7D, 0x0A]"

definition ws_vmf :: "unit vmf" where
  "ws_vmf = \<lparr> spawn = \<lparr> e_keys = [(''classname'', ''worldspawn'')], e_outputs = [] \<rparr>,
               entities = [], map_ver = 0 \<rparr>"

text \<open>
  The file of claim C1: the magic, version 20, 64 directory entries of 16 zero bytes and
  the map revision 0.
\<close>

definition empty_bsp_file :: bytes where
  "empty_bsp_file = BSP_MAGIC @ le_bytes 4 20 @ replicate 1024 0 @ le_bytes 4 0"

text \<open>A directory entry with version 0 and a zero ident.\<close>

definition dir_entry :: "int \<Rightarrow> int \<Rightarrow> bytes" where
  "dir_entry off len = le_bytes 4 off @ le_bytes 4 len @ le_bytes 4 0 @ replicate 4 0"

text \<open>
  The file of a BSP without any data, with the offsets where \<open>save\<close> puts them: every
  lump is empty but the game lump, which is the four bytes of the count 0 that follow
  the header.
\<close>

definition bare_bsp_file :: "int \<Rightarrow> bytes" where
  "bare_bsp_file v =
     BSP_MAGIC @ le_bytes 4 v
     @ concat (map (\<lambda>i. dir_entry (if i < 36 then 1036 else 1040)
                                     (if i = GAME_LUMP then 4 else 0)) [0..<64])
     @ le_bytes 4 0 @ le_bytes 4 0"

text \<open>The BSP with 64 empty lumps and no game lump.\<close>

definition empty_lumps :: "bsp_version \<Rightarrow> bsp" where
  "empty_lumps ver =
     \<lparr> version = Some ver, map_revision = 0,
       lumps = map (\<lambda>i. (i, Lump i 0 (replicate 4 0))) [0..<64],
       game_lumps = [] \<rparr>"

text \<open>
  Where \<open>save\<close> puts data written one piece after the other from a start position:
  the position of the piece \<open>x\<close> of the list, for pieces of the sizes \<open>sz\<close>.
\<close>

fun offset_of :: "('a \<Rightarrow> nat) \<Rightarrow> 'a list \<Rightarrow> nat \<Rightarrow> 'a \<Rightarrow> nat" where
  "offset_of sz [] start x = start"
| "offset_of sz (y # ys) start x = (if x = y then start else offset_of sz ys (start + sz y) x)"

text \<open>
  The deferred locations of a game lump directory that starts at \<open>base\<close>: the offset
  field of each entry of 16 bytes, under the identifier of the game lump.
\<close>

fun game_locs :: "nat \<Rightarrow> game_lump list \<Rightarrow> (defer_key \<times> nat \<times> nat) list" where
  "game_locs base [] = []"
| "game_locs base (g # gs) = (KGame (g_id g), (base + 8, 1)) # game_locs (base + 16) gs"

text \<open>
  A BSP of version 20 with data in the lumps 0 and 40 and two game lumps, the static
  props \<open>sprp\<close> and the detail props \<open>dprp\<close>.
\<close>

definition two_lumps :: "nat \<Rightarrow> lump" where
  "two_lumps i =
     \<lparr> l_type = i, l_version = 0, l_ident = [0, 0, 0, 0],
       l_data = (if i = 0 then [1, 2, 3] else if i = 40 then [9] else []) \<rparr>"

definition sprp_lump :: game_lump where
  "sprp_lump = \<lparr> g_id = [0x73, 0x70, 0x72, 0x70], g_flags = 0, g_version = 6,
                  g_data = [1, 2, 3] \<rparr>"

definition dprp_lump :: game_lump where
  "dprp_lump = \<lparr> g_id = [0x64, 0x70, 0x72, 0x70], g_flags = 1, g_version = 4,
                  g_data = [4, 5] \<rparr>"

definition two_game_bsp :: bsp where
  "two_game_bsp =
     \<lparr> version = Some (VEnum VER_20), map_revision = 7,
       lumps = map (\<lambda>i. (i, two_lumps i)) [0..<64],
       game_lumps = map (\<lambda>g. (g_id g, g)) [sprp_lump, dprp_lump] \<rparr>"

section \<open>Properties of the Vec operators\<close>

text \<open>
  Claim C9, as the code has it. A product, division, floor division, modulus or divmod of
  two Vecs raises TypeError ("Cannot ... 2 Vectors."). With a scalar the operation is
  applied to each component; it succeeds when the scalar converts to a float and, for
  the three divisions and divmod, is not zero, and raises ZeroDivisionError on zero.
\<close>

theorem vec_muldiv_scalar_or_vec:
  "binop (vec_muldiv F opr v (OVec w)) =
     Inl (TypeError (''Cannot '' @ pretty opr @ '' 2 Vectors.''))
   \<and> binop (vec_divmod F v (OVec w)) = Inl (TypeError ''Cannot divide 2 Vectors.'')
   \<and> binop (vec_muldiv F opr v (OScalar s)) =
       (case to_float F s of
          Inl e \<Rightarrow> Inl e
        | Inr b \<Rightarrow>
            if opr = Mul \<or> \<not> f_is_zero F b
            then Inr (Vec (f_apply F opr (vx v) b) (f_apply F opr (vy v) b)
                          (f_apply F opr (vz v) b))
            else Inl ZeroDivisionError)
   \<and> binop (vec_divmod F v (OScalar s)) =
       (case to_float F s of
          Inl e \<Rightarrow> Inl e
        | Inr b \<Rightarrow>
            if \<not> f_is_zero F b
            then Inr (Vec (f_floordiv F (vx v) b) (f_floordiv F (vy v) b)
                          (f_floordiv F (vz v) b),
                      Vec (f_mod F (vx v) b) (f_mod F (vy v) b) (f_mod F (vz v) b))
            else Inl ZeroDivisionError)"
proof -
  have a: "binop (vec_muldiv F opr v (OVec w)) =
      Inl (TypeError (''Cannot '' @ pretty opr @ '' 2 Vectors.''))"
    by (simp add: vec_muldiv_def binop_def)
  have b: "binop (vec_divmod F v (OVec w)) = Inl (TypeError ''Cannot divide 2 Vectors.'')"
    by (simp add: vec_divmod_def binop_def)
  have c: "binop (vec_muldiv F opr v (OScalar s)) =
       (case to_float F s of
          Inl e \<Rightarrow> Inl e
        | Inr b \<Rightarrow>
            if opr = Mul \<or> \<not> f_is_zero F b
            then Inr (Vec (f_apply F opr (vx v) b) (f_apply F opr (vy v) b)
                          (f_apply F opr (vz v) b))
            else Inl ZeroDivisionError)"
    by (cases "to_float F s")
       (auto simp: vec_muldiv_def float_op_def binop_def to_float_def
             split: scalar.splits option.splits)
  have d: "binop (vec_divmod F v (OScalar s)) =
       (case to_float F s of
          Inl e \<Rightarrow> Inl e
        | Inr b \<Rightarrow>
            if \<not> f_is_zero F b
            then Inr (Vec (f_floordiv F (vx v) b) (f_floordiv F (vy v) b)
                          (f_floordiv F (vz v) b),
                      Vec (f_mod F (vx v) b) (f_mod F (vy v) b) (f_mod F (vz v) b))
            else Inl ZeroDivisionError)"
    by (cases "to_float F s")
       (auto simp: vec_divmod_def float_divmod_def binop_def to_float_def
             split: scalar.splits option.splits)
  from a b c d show ?thesis by blast
qed

text \<open>A run of the theorem: a Vec times a Vec, and a Vec times the int 2.\<close>

theorem vec_muldiv_scalar_or_vec_witness:
  "binop (vec_muldiv rat_arith Mul (Vec 1 2 3) (OVec (Vec 4 5 6))) =
     Inl (TypeError ''Cannot multiply 2 Vectors.'')
   \<and> binop (vec_muldiv rat_arith Mul (Vec 1 2 3) (OScalar (SInt 2))) = Inr (Vec 2 4 6)"
  using vec_muldiv_scalar_or_vec [of rat_arith Mul "Vec 1 2 3" "Vec 4 5 6" "SInt 2"]
  by (simp add: to_float_def rat_arith_def)

text \<open>
  Claim C9 as stated has every operation with a scalar succeed: \<open>Vec(1, 2, 3) / 0\<close>
  raises ZeroDivisionError.
\<close>

theorem vec_truediv_zero_counterexample:
  "binop (vec_muldiv rat_arith TrueDiv (Vec 1 2 3) (OScalar (SInt 0))) = Inl ZeroDivisionError"
  by (simp add: vec_muldiv_def float_op_def to_float_def rat_arith_def binop_def)

section \<open>Properties of the static prop gate\<close>

text \<open>
  Claim C7. When the BSP has an \<open>sprp\<close> game lump, \<open>static_props\<close> fails with one of
  its two version errors exactly when the version of the lump is below 4 or above 11;
  for a version from 4 to 11 it goes on to decode the data of the lump at that version.
\<close>

theorem static_props_version_gate:
  "map_of (game_lumps b) sprp = Some g \<Longrightarrow>
     ((static_props decode b = Inl (ValueError ''Unknown version ({})!'')
       \<or> static_props decode b = Inl (ValueError ''Static prop version {} is too old!''))
      = (g_version g < 4 \<or> 11 < g_version g))
     \<and> (4 \<le> g_version g \<and> g_version g \<le> 11 \<longrightarrow>
          static_props decode b = Inr (decode (g_version g) (g_data g)))"
  by (auto simp: static_props_def)

text \<open>A run of the theorem: a BSP whose \<open>sprp\<close> lump has version 6.\<close>

theorem static_props_version_gate_witness:
  "static_props (\<lambda>v d. (v, d))
     \<lparr> version = Some (VEnum VER_20), map_revision = 0, lumps = [],
       game_lumps = [(sprp, \<lparr> g_id = sprp, g_flags = 0, g_version = 6, g_data = [1, 2] \<rparr>)] \<rparr>
   = Inr (6, [1, 2])"
  using static_props_version_gate
    [of "\<lparr> version = Some (VEnum VER_20), map_revision = 0, lumps = [],
           game_lumps = [(sprp, \<lparr> g_id = sprp, g_flags = 0, g_version = 6,
                                  g_data = [1, 2] \<rparr>)] \<rparr>"
        "\<lparr> g_id = sprp, g_flags = 0, g_version = 6, g_data = [1, 2] \<rparr>"
        "\<lambda>v d. (v, d)"]
  by simp

section \<open>Properties of the visibility tree\<close>

text \<open>
  Claim C3 has the area of a leaf be bits 7 to 15 of \<open>area_and_flags\<close> shifted down.
  The code masks the bits and leaves them in place: the leaf record whose
  \<open>area_and_flags\<close> field is 128 (area 1, no flags) gets the area 128.
\<close>

theorem visleaf_area_not_shifted:
  "map area (read_leafs 0 [replicate 6 0 @ [0x80, 0x00] @ replicate 24 0]) = [128]
   \<and> map flags (read_leafs 0 [replicate 6 0 @ [0x80, 0x00] @ replicate 24 0]) = [0]
   \<and> (drop_bit 7 (128 :: int)) AND 0x1FF = 1"
  by (simp add: leaf_of_def VisLeaf_def field_def unpack_sint_def drop_bit_eq_div)

lemma map_of_dict_set: "map_of (dict_set k v d) k' = (if k' = k then Some v else map_of d k')"
  by (induction d) auto

lemma dict_get_dict_set_other: "k' \<noteq> k \<Longrightarrow> dict_get (dict_set k v d) k' = dict_get d k'"
  by (simp add: dict_get_def map_of_dict_set)

lemma vis_tree_no_value:
  "version_value (version b) = Inl e \<Longrightarrow> \<exists>e'. vis_tree b = Inl e'"
  by (auto simp: vis_tree_def Let_def split: sum.splits)

lemma vis_tree_no_value_leafs:
  "version_value (version b) = Inl e \<Longrightarrow>
   vis_tree (b\<lparr>lumps := dict_set LEAFS l (lumps b)\<rparr>) = vis_tree b"
  by (auto simp: vis_tree_def Let_def dict_get_dict_set_other LEAFS_def PLANES_def NODES_def
           split: sum.splits)

lemma read_version:
  "read None file = Inr b \<Longrightarrow>
   version b = Some (case VERSIONS (unpack_sint (drop 4 (take 8 file))) of
                       Some v \<Rightarrow> VEnum v
                     | None \<Rightarrow> VInt (unpack_sint (drop 4 (take 8 file))))"
  unfolding read_def struct_read_def Let_def
  by (auto split: sum.splits option.splits prod.splits if_splits)

text \<open>
  Claim C10. When \<open>read\<close>, called without a declared version, succeeds on a file whose
  version is not a value of VERSIONS, the BSP holds the version as a plain int; then
  \<open>vis_tree\<close> fails, and whatever the LEAFS lump holds makes no difference to how: the
  failure comes before any leaf is decoded (at the latest at \<open>self.version.value\<close>).
\<close>

theorem unknown_version_vis_tree_fails:
  "read None file = Inr b \<Longrightarrow> VERSIONS (unpack_sint (drop 4 (take 8 file))) = None \<Longrightarrow>
     version b = Some (VInt (unpack_sint (drop 4 (take 8 file))))
     \<and> (\<exists>e. vis_tree b = Inl e)
     \<and> (\<forall>l. vis_tree (b\<lparr>lumps := dict_set LEAFS l (lumps b)\<rparr>) = vis_tree b)"
proof -
  assume r: "read None file = Inr b"
    and v: "VERSIONS (unpack_sint (drop 4 (take 8 file))) = None"
  from read_version [OF r] v
  have ver: "version b = Some (VInt (unpack_sint (drop 4 (take 8 file))))" by simp
  then have nv: "version_value (version b) = Inl AttributeError"
    by (simp add: version_value_def)
  from ver vis_tree_no_value [OF nv] vis_tree_no_value_leafs [OF nv]
  show ?thesis by blast
qed

lemma chunks_length: "length (chunks k n d) = k"
  by (induction k arbitrary: d) auto

lemma chunks_nth: "i < k \<Longrightarrow> chunks k n d ! i = field (i * n) n d"
proof (induction k arbitrary: i d)
  case 0
  then show ?case by simp
next
  case (Suc k)
  show ?case
  proof (cases i)
    case 0
    then show ?thesis by (simp add: field_def)
  next
    case (Suc j)
    with Suc.prems have "j < k" by simp
    from Suc.IH [OF this, of "drop n d"] Suc show ?thesis
      by (simp add: field_def add.commute)
  qed
qed

lemma read_nodes_Inr:
  "read_nodes planes rs = Inr ns \<Longrightarrow>
   length ns = length rs \<and>
   (\<forall>i<length rs. fst (snd (ns ! i)) = unpack_sint (field 4 4 (rs ! i))
                  \<and> snd (snd (ns ! i)) = unpack_sint (field 8 4 (rs ! i)))"
proof (induction rs arbitrary: ns)
  case Nil
  then show ?case by simp
next
  case (Cons r rs)
  from Cons.prems obtain p ns' where
    ns': "read_nodes planes rs = Inr ns'"
    and ns: "ns = (VisTree (fst p) (snd p) (vec_h 12 r) (vec_h 18 r),
                   unpack_sint (field 4 4 r), unpack_sint (field 8 4 r)) # ns'"
    by (auto split: sum.splits prod.splits)
  from Cons.IH [OF ns'] ns show ?case
    by (auto simp: nth_Cons split: nat.splits)
qed

lemma link_child_Inr:
  "link_child nn nl c = Inr ch \<Longrightarrow>
   ch = (if c < 0 then ChildLeaf (nat (- 1 - c)) else ChildNode (nat c))
   \<and> (c < 0 \<longrightarrow> nat (- 1 - c) < nl) \<and> (0 \<le> c \<longrightarrow> nat c < nn)"
  by (auto simp: link_child_def split: if_splits)

lemma link_nodes_Inr:
  "link_nodes nn nl ns = Inr ls \<Longrightarrow>
   length ls = length ns \<and>
   (\<forall>i<length ns. \<exists>cn cp.
       link_child nn nl (fst (snd (ns ! i))) = Inr cn
     \<and> link_child nn nl (snd (snd (ns ! i))) = Inr cp
     \<and> child_neg (ls ! i) = Some cn \<and> child_pos (ls ! i) = Some cp)"
proof (induction ns arbitrary: ls)
  case Nil
  then show ?case by simp
next
  case (Cons n ns)
  obtain node neg pos where n: "n = (node, neg, pos)" by (cases n) auto
  from Cons.prems n obtain cn cp ls' where
    cn: "link_child nn nl neg = Inr cn" and cp: "link_child nn nl pos = Inr cp"
    and ls': "link_nodes nn nl ns = Inr ls'"
    and ls: "ls = node\<lparr>child_neg := Some cn, child_pos := Some cp\<rparr> # ls'"
    by (auto split: sum.splits)
  from Cons.IH [OF ls'] ls cn cp n show ?case
    by (auto simp: nth_Cons split: nat.splits)
qed

lemma read_leafs_length: "length (read_leafs i rs) = length rs"
  by (induction rs arbitrary: i) auto

lemma read_leafs_nth: "k < length rs \<Longrightarrow> read_leafs i rs ! k = leaf_of (i + int k) (rs ! k)"
proof (induction rs arbitrary: i k)
  case Nil
  then show ?case by simp
next
  case (Cons r rs)
  show ?case
  proof (cases k)
    case 0
    then show ?thesis by simp
  next
    case (Suc j)
    with Cons.prems have "j < length rs" by simp
    from Cons.IH [OF this, of "i + 1"] Suc show ?thesis by (simp add: add.assoc)
  qed
qed

lemma iter_unpack_Inr:
  "iter_unpack n d = Inr rs \<Longrightarrow> rs = chunks (length d div n) n d"
  by (auto simp: iter_unpack_def split: if_splits)

lemma vis_tree_Inr_links:
  assumes ok: "vis_tree b = Inr r"
    and nl: "dict_get (lumps b) NODES = Inr nl"
    and ll: "dict_get (lumps b) LEAFS = Inr ll"
    and ver: "version_value (version b) = Inr ver"
  shows "root r = 0 \<and> 0 < length (tree_nodes r)
    \<and> length (tree_nodes r) = length (l_data nl) div 32
    \<and> length (tree_leafs r) = length (l_data ll) div leaf_size ver
    \<and> (\<forall>i<length (tree_nodes r).
          (let c = unpack_sint (field 4 4 (field (i * 32) 32 (l_data nl))) in
             child_neg (tree_nodes r ! i)
               = Some (if c < 0 then ChildLeaf (nat (- 1 - c)) else ChildNode (nat c))
             \<and> (c < 0 \<longrightarrow> nat (- 1 - c) < length (tree_leafs r))
             \<and> (0 \<le> c \<longrightarrow> nat c < length (tree_nodes r)))
        \<and> (let c = unpack_sint (field 8 4 (field (i * 32) 32 (l_data nl))) in
             child_pos (tree_nodes r ! i)
               = Some (if c < 0 then ChildLeaf (nat (- 1 - c)) else ChildNode (nat c))
             \<and> (c < 0 \<longrightarrow> nat (- 1 - c) < length (tree_leafs r))
             \<and> (0 \<le> c \<longrightarrow> nat c < length (tree_nodes r))))
    \<and> (unpack_sint (field 4 4 (field 0 32 (l_data nl))) = - 1 \<longrightarrow>
          child_neg (tree_nodes r ! root r) = Some (ChildLeaf 0)
          \<and> tree_leafs r ! 0 = leaf_of 0 (field 0 (leaf_size ver) (l_data ll)))"
proof -
  from ok nl ll ver obtain prs nrs nodes lrs linked where
    nrs: "iter_unpack 32 (l_data nl) = Inr nrs"
    and nodes: "read_nodes (map plane_of prs) nrs = Inr nodes"
    and lrs: "iter_unpack (leaf_size ver) (l_data ll) = Inr lrs"
    and linked: "link_nodes (length nodes) (length (read_leafs 0 lrs)) nodes = Inr linked"
    and ne: "linked \<noteq> []"
    and r: "r = \<lparr> root = 0, tree_nodes = linked, tree_leafs = read_leafs 0 lrs \<rparr>"
    unfolding vis_tree_def Let_def
    by (auto split: sum.splits if_splits)
  let ?N = "length (l_data nl) div 32"
  let ?L = "length (l_data ll) div leaf_size ver"
  have nrs_eq: "nrs = chunks ?N 32 (l_data nl)" using iter_unpack_Inr [OF nrs] .
  have lrs_eq: "lrs = chunks ?L (leaf_size ver) (l_data ll)" using iter_unpack_Inr [OF lrs] .
  have len_nrs: "length nrs = ?N" by (simp add: nrs_eq chunks_length)
  have len_lrs: "length lrs = ?L" by (simp add: lrs_eq chunks_length)
  from read_nodes_Inr [OF nodes] have len_nodes: "length nodes = ?N"
    and node_i: "\<And>i. i < ?N \<Longrightarrow>
        fst (snd (nodes ! i)) = unpack_sint (field 4 4 (nrs ! i))
        \<and> snd (snd (nodes ! i)) = unpack_sint (field 8 4 (nrs ! i))"
    by (simp_all add: len_nrs)
  from link_nodes_Inr [OF linked] have len_linked: "length linked = ?N"
    and link_i: "\<And>i. i < ?N \<Longrightarrow> \<exists>cn cp.
       link_child (length nodes) (length (read_leafs 0 lrs)) (fst (snd (nodes ! i))) = Inr cn
     \<and> link_child (length nodes) (length (read_leafs 0 lrs)) (snd (snd (nodes ! i))) = Inr cp
     \<and> child_neg (linked ! i) = Some cn \<and> child_pos (linked ! i) = Some cp"
    by (simp_all add: len_nodes)
  have len_leafs: "length (read_leafs 0 lrs) = ?L" by (simp add: read_leafs_length len_lrs)
  have pos: "0 < ?N" using ne len_linked by (cases linked) auto
  have each: "\<And>i. i < ?N \<Longrightarrow>
          (let c = unpack_sint (field 4 4 (field (i * 32) 32 (l_data nl))) in
             child_neg (linked ! i)
               = Some (if c < 0 then ChildLeaf (nat (- 1 - c)) else ChildNode (nat c))
             \<and> (c < 0 \<longrightarrow> nat (- 1 - c) < ?L)
             \<and> (0 \<le> c \<longrightarrow> nat c < ?N))
        \<and> (let c = unpack_sint (field 8 4 (field (i * 32) 32 (l_data nl))) in
             child_pos (linked ! i)
               = Some (if c < 0 then ChildLeaf (nat (- 1 - c)) else ChildNode (nat c))
             \<and> (c < 0 \<longrightarrow> nat (- 1 - c) < ?L)
             \<and> (0 \<le> c \<longrightarrow> nat c < ?N))"
  proof -
    fix i assume i: "i < ?N"
    from link_i [OF i] obtain cn cp where
      cn: "link_child (length nodes) (length (read_leafs 0 lrs)) (fst (snd (nodes ! i))) = Inr cn"
      and cp: "link_child (length nodes) (length (read_leafs 0 lrs)) (snd (snd (nodes ! i))) = Inr cp"
      and n: "child_neg (linked ! i) = Some cn" and p: "child_pos (linked ! i) = Some cp"
      by blast
    have rec: "nrs ! i = field (i * 32) 32 (l_data nl)"
      using chunks_nth [OF i] by (simp add: nrs_eq)
    from link_child_Inr [OF cn] link_child_Inr [OF cp] node_i [OF i] n p rec
    show "?thesis i" by (simp add: Let_def len_nodes len_leafs)
  qed
  have first: "unpack_sint (field 4 4 (field 0 32 (l_data nl))) = - 1 \<Longrightarrow>
          child_neg (linked ! 0) = Some (ChildLeaf 0)
          \<and> read_leafs 0 lrs ! 0 = leaf_of 0 (field 0 (leaf_size ver) (l_data ll))"
  proof -
    assume m: "unpack_sint (field 4 4 (field 0 32 (l_data nl))) = - 1"
    from each [OF pos] m have c: "child_neg (linked ! 0) = Some (ChildLeaf 0)" and l: "0 < ?L"
      by (simp_all add: Let_def)
    from l have "0 < length lrs" by (simp add: len_lrs)
    from read_leafs_nth [OF this, of 0] chunks_nth [OF l, of "leaf_size ver" "l_data ll"]
    have "read_leafs 0 lrs ! 0 = leaf_of 0 (field 0 (leaf_size ver) (l_data ll))"
      by (simp add: lrs_eq)
    with c show ?thesis by simp
  qed
  from pos each first show ?thesis
    by (simp add: r len_linked len_leafs)
qed



lemma read_nodes_ok:
  "(\<forall>r\<in>set rs. - int (length planes) \<le> unpack_sint (field 0 4 r)
                \<and> unpack_sint (field 0 4 r) < int (length planes)) \<Longrightarrow>
   \<exists>ns. read_nodes planes rs = Inr ns"
  by (induction rs) (auto simp: py_index_def split: prod.splits)

lemma link_child_ok:
  "(c < 0 \<longrightarrow> - 1 - c < int nl) \<Longrightarrow> (0 \<le> c \<longrightarrow> c < int nn) \<Longrightarrow>
   \<exists>ch. link_child nn nl c = Inr ch"
  by (auto simp: link_child_def)

lemma link_nodes_ok:
  "(\<forall>n\<in>set ns. (\<exists>cn. link_child nn nl (fst (snd n)) = Inr cn)
                \<and> (\<exists>cp. link_child nn nl (snd (snd n)) = Inr cp)) \<Longrightarrow>
   \<exists>ls. link_nodes nn nl ns = Inr ls"
  by (induction ns) auto

lemma vis_tree_ok:
  assumes pl: "dict_get (lumps b) PLANES = Inr pl"
    and nl: "dict_get (lumps b) NODES = Inr nl"
    and ll: "dict_get (lumps b) LEAFS = Inr ll"
    and ver: "version_value (version b) = Inr ver"
    and plen: "length (l_data pl) mod 20 = 0"
    and nlen: "length (l_data nl) mod 32 = 0"
    and llen: "length (l_data ll) mod leaf_size ver = 0"
    and some: "0 < length (l_data nl) div 32"
    and rng: "\<forall>i<length (l_data nl) div 32.
        (let p = unpack_sint (field 0 4 (field (i * 32) 32 (l_data nl))) in
           - int (length (l_data pl) div 20) \<le> p \<and> p < int (length (l_data pl) div 20))
      \<and> (let c = unpack_sint (field 4 4 (field (i * 32) 32 (l_data nl))) in
           (c < 0 \<longrightarrow> - 1 - c < int (length (l_data ll) div leaf_size ver))
           \<and> (0 \<le> c \<longrightarrow> c < int (length (l_data nl) div 32)))
      \<and> (let c = unpack_sint (field 8 4 (field (i * 32) 32 (l_data nl))) in
           (c < 0 \<longrightarrow> - 1 - c < int (length (l_data ll) div leaf_size ver))
           \<and> (0 \<le> c \<longrightarrow> c < int (length (l_data nl) div 32)))"
  shows "\<exists>r. vis_tree b = Inr r"
proof -
  let ?P = "length (l_data pl) div 20"
  let ?N = "length (l_data nl) div 32"
  let ?L = "length (l_data ll) div leaf_size ver"
  let ?prs = "chunks ?P 20 (l_data pl)"
  let ?nrs = "chunks ?N 32 (l_data nl)"
  let ?lrs = "chunks ?L (leaf_size ver) (l_data ll)"
  have ip: "iter_unpack 20 (l_data pl) = Inr ?prs"
    using plen by (simp add: iter_unpack_def)
  have inn: "iter_unpack 32 (l_data nl) = Inr ?nrs"
    using nlen by (simp add: iter_unpack_def)
  have il: "iter_unpack (leaf_size ver) (l_data ll) = Inr ?lrs"
    using llen by (simp add: iter_unpack_def)
  have rec: "i < ?N \<Longrightarrow> ?nrs ! i = field (i * 32) 32 (l_data nl)" for i
    by (rule chunks_nth)
  have "\<forall>r\<in>set ?nrs. - int (length (map plane_of ?prs)) \<le> unpack_sint (field 0 4 r)
                \<and> unpack_sint (field 0 4 r) < int (length (map plane_of ?prs))"
  proof
    fix r assume "r \<in> set ?nrs"
    then obtain i where i: "i < ?N" and r: "r = ?nrs ! i"
      by (auto simp: in_set_conv_nth chunks_length)
    from rng i show "- int (length (map plane_of ?prs)) \<le> unpack_sint (field 0 4 r)
                \<and> unpack_sint (field 0 4 r) < int (length (map plane_of ?prs))"
      by (simp add: r rec Let_def chunks_length)
  qed
  from read_nodes_ok [OF this] obtain nodes where
    nodes: "read_nodes (map plane_of ?prs) ?nrs = Inr nodes" by blast
  from read_nodes_Inr [OF nodes] have len_nodes: "length nodes = ?N"
    and node_i: "\<And>i. i < ?N \<Longrightarrow>
        fst (snd (nodes ! i)) = unpack_sint (field 4 4 (?nrs ! i))
        \<and> snd (snd (nodes ! i)) = unpack_sint (field 8 4 (?nrs ! i))"
    by (simp_all add: chunks_length)
  let ?leafs = "read_leafs 0 ?lrs"
  have len_leafs: "length ?leafs = ?L" by (simp add: read_leafs_length chunks_length)
  have "\<forall>n\<in>set nodes. (\<exists>cn. link_child (length nodes) (length ?leafs) (fst (snd n)) = Inr cn)
                \<and> (\<exists>cp. link_child (length nodes) (length ?leafs) (snd (snd n)) = Inr cp)"
  proof
    fix n assume "n \<in> set nodes"
    then obtain i where i: "i < ?N" and n: "n = nodes ! i"
      by (auto simp: in_set_conv_nth len_nodes)
    from rng i node_i [OF i] have
      a: "(fst (snd n) < 0 \<longrightarrow> - 1 - fst (snd n) < int (length ?leafs))"
         "(0 \<le> fst (snd n) \<longrightarrow> fst (snd n) < int (length nodes))"
      and c: "(snd (snd n) < 0 \<longrightarrow> - 1 - snd (snd n) < int (length ?leafs))"
         "(0 \<le> snd (snd n) \<longrightarrow> snd (snd n) < int (length nodes))"
      by (simp_all add: n rec Let_def len_nodes len_leafs)
    from link_child_ok [OF a] link_child_ok [OF c]
    show "(\<exists>cn. link_child (length nodes) (length ?leafs) (fst (snd n)) = Inr cn)
                \<and> (\<exists>cp. link_child (length nodes) (length ?leafs) (snd (snd n)) = Inr cp)"
      by blast
  qed
  from link_nodes_ok [OF this] obtain linked where
    linked: "link_nodes (length nodes) (length ?leafs) nodes = Inr linked" by blast
  from link_nodes_Inr [OF linked] have "length linked = ?N" by (simp add: len_nodes)
  with some have ne: "linked \<noteq> []" by auto
  show ?thesis
    unfolding vis_tree_def Let_def
    by (simp add: pl nl ll ver ip inn il nodes linked ne)
qed

text \<open>
  Claim C4. Let the PLANES, NODES and LEAFS lumps hold whole records, at least one node,
  and let every node record have its plane index within the planes and each of its two
  child indices \<open>c\<close> within the leaves (\<open>-1 - c\<close>, when \<open>c\<close> is negative) or within the
  nodes (\<open>c\<close> otherwise). Then \<open>vis_tree\<close> returns; the node returned is node 0; there
  is one node object for each 32-byte NODES record and one leaf for each LEAFS record,
  and for every node each child is the leaf at index \<open>-1 - c\<close> of the leaf array when
  the child index \<open>c\<close> of the record is negative, and the node at index \<open>c\<close> otherwise.
  When the negative child index of the first record is -1, the negative child of the
  root is leaf 0, the VisLeaf built from the first LEAFS record.
\<close>

theorem vis_tree_links_children:
  assumes pl: "dict_get (lumps b) PLANES = Inr pl"
    and nl: "dict_get (lumps b) NODES = Inr nl"
    and ll: "dict_get (lumps b) LEAFS = Inr ll"
    and ver: "version_value (version b) = Inr ver"
    and plen: "length (l_data pl) mod 20 = 0"
    and nlen: "length (l_data nl) mod 32 = 0"
    and llen: "length (l_data ll) mod leaf_size ver = 0"
    and some: "0 < length (l_data nl) div 32"
    and rng: "\<forall>i<length (l_data nl) div 32.
        (let p = unpack_sint (field 0 4 (field (i * 32) 32 (l_data nl))) in
           - int (length (l_data pl) div 20) \<le> p \<and> p < int (length (l_data pl) div 20))
      \<and> (let c = unpack_sint (field 4 4 (field (i * 32) 32 (l_data nl))) in
           (c < 0 \<longrightarrow> - 1 - c < int (length (l_data ll) div leaf_size ver))
           \<and> (0 \<le> c \<longrightarrow> c < int (length (l_data nl) div 32)))
      \<and> (let c = unpack_sint (field 8 4 (field (i * 32) 32 (l_data nl))) in
           (c < 0 \<longrightarrow> - 1 - c < int (length (l_data ll) div leaf_size ver))
           \<and> (0 \<le> c \<longrightarrow> c < int (length (l_data nl) div 32)))"
  shows "\<exists>r. vis_tree b = Inr r
    \<and> root r = 0
    \<and> length (tree_nodes r) = length (l_data nl) div 32
    \<and> length (tree_leafs r) = length (l_data ll) div leaf_size ver
    \<and> (\<forall>k<length (tree_leafs r).
          tree_leafs r ! k = leaf_of (int k) (field (k * leaf_size ver) (leaf_size ver) (l_data ll)))
    \<and> (\<forall>i<length (tree_nodes r).
          (let c = unpack_sint (field 4 4 (field (i * 32) 32 (l_data nl))) in
             child_neg (tree_nodes r ! i)
               = Some (if c < 0 then ChildLeaf (nat (- 1 - c)) else ChildNode (nat c)))
        \<and> (let c = unpack_sint (field 8 4 (field (i * 32) 32 (l_data nl))) in
             child_pos (tree_nodes r ! i)
               = Some (if c < 0 then ChildLeaf (nat (- 1 - c)) else ChildNode (nat c))))
    \<and> (unpack_sint (field 4 4 (field 0 32 (l_data nl))) = - 1 \<longrightarrow>
          child_neg (tree_nodes r ! root r) = Some (ChildLeaf 0)
          \<and> tree_leafs r ! 0 = leaf_of 0 (field 0 (leaf_size ver) (l_data ll)))"
proof -
  from vis_tree_ok [OF pl nl ll ver plen nlen llen some rng]
  obtain r where ok: "vis_tree b = Inr r" by blast
  from ok pl nl ll ver obtain prs nrs nodes lrs linked where
    lrs: "iter_unpack (leaf_size ver) (l_data ll) = Inr lrs"
    and r: "r = \<lparr> root = 0, tree_nodes = linked, tree_leafs = read_leafs 0 lrs \<rparr>"
    unfolding vis_tree_def Let_def
    by (auto split: sum.splits if_splits)
  let ?L = "length (l_data ll) div leaf_size ver"
  have lrs_eq: "lrs = chunks ?L (leaf_size ver) (l_data ll)" using iter_unpack_Inr [OF lrs] .
  have leaf: "k < ?L \<Longrightarrow>
      tree_leafs r ! k = leaf_of (int k) (field (k * leaf_size ver) (leaf_size ver) (l_data ll))"
    for k
    using read_leafs_nth [of k lrs 0] chunks_nth [of k ?L "leaf_size ver" "l_data ll"]
    by (simp add: r lrs_eq chunks_length)
  from vis_tree_Inr_links [OF ok nl ll ver] leaf ok show ?thesis
    by (auto simp: Let_def)
qed

lemma le_nat_replicate_0: "le_nat (replicate n 0) = 0"
  by (induction n) auto

lemma tree_nodes_fields:
  "unpack_sint (field 0 4 (field 0 32 tree_nodes_data)) = 0"
  "unpack_sint (field 4 4 (field 0 32 tree_nodes_data)) = - 1"
  "unpack_sint (field 8 4 (field 0 32 tree_nodes_data)) = 1"
  "unpack_sint (field 0 4 (field 32 32 tree_nodes_data)) = 0"
  "unpack_sint (field 4 4 (field 32 32 tree_nodes_data)) = - 2"
  "unpack_sint (field 8 4 (field 32 32 tree_nodes_data)) = - 1"
  by (simp_all add: field_def tree_nodes_data_def unpack_sint_def)

text \<open>
  A run of the theorem on the BSP with one plane, two nodes and two leaves: node 0 has
  leaf 0 and node 1 as its children, node 1 has leaf 1 and leaf 0.
\<close>

theorem vis_tree_links_children_witness:
  "\<exists>r. vis_tree tree_bsp = Inr r
     \<and> root r = 0 \<and> length (tree_nodes r) = 2 \<and> length (tree_leafs r) = 2
     \<and> child_neg (tree_nodes r ! 0) = Some (ChildLeaf 0)
     \<and> child_pos (tree_nodes r ! 0) = Some (ChildNode 1)
     \<and> child_neg (tree_nodes r ! 1) = Some (ChildLeaf 1)
     \<and> child_pos (tree_nodes r ! 1) = Some (ChildLeaf 0)
     \<and> tree_leafs r ! 0 = leaf_of 0 (replicate 32 0)"
proof -
  let ?pl = "\<lparr> l_type = PLANES, l_version = 0, l_ident = [0, 0, 0, 0],
               l_data = replicate 20 0 \<rparr>"
  let ?nl = "\<lparr> l_type = NODES, l_version = 0, l_ident = [0, 0, 0, 0],
               l_data = tree_nodes_data \<rparr>"
  let ?ll = "\<lparr> l_type = LEAFS, l_version = 0, l_ident = [0, 0, 0, 0],
               l_data = replicate 64 0 \<rparr>"
  have pl: "dict_get (lumps tree_bsp) PLANES = Inr ?pl"
    by (simp add: tree_bsp_def dict_get_def)
  have nl: "dict_get (lumps tree_bsp) NODES = Inr ?nl"
    by (simp add: tree_bsp_def dict_get_def PLANES_def NODES_def)
  have ll: "dict_get (lumps tree_bsp) LEAFS = Inr ?ll"
    by (simp add: tree_bsp_def dict_get_def PLANES_def NODES_def LEAFS_def)
  have ver: "version_value (version tree_bsp) = Inr 20"
    by (simp add: tree_bsp_def version_value_def)
  have len: "length tree_nodes_data = 64" by (simp add: tree_nodes_data_def)
  have two: "i < 2 \<Longrightarrow> i = 0 \<or> i = Suc 0" for i :: nat by arith
  have rng: "\<forall>i<length (l_data ?nl) div 32.
        (let p = unpack_sint (field 0 4 (field (i * 32) 32 (l_data ?nl))) in
           - int (length (l_data ?pl) div 20) \<le> p \<and> p < int (length (l_data ?pl) div 20))
      \<and> (let c = unpack_sint (field 4 4 (field (i * 32) 32 (l_data ?nl))) in
           (c < 0 \<longrightarrow> - 1 - c < int (length (l_data ?ll) div leaf_size 20))
           \<and> (0 \<le> c \<longrightarrow> c < int (length (l_data ?nl) div 32)))
      \<and> (let c = unpack_sint (field 8 4 (field (i * 32) 32 (l_data ?nl))) in
           (c < 0 \<longrightarrow> - 1 - c < int (length (l_data ?ll) div leaf_size 20))
           \<and> (0 \<le> c \<longrightarrow> c < int (length (l_data ?nl) div 32)))"
  proof (intro allI impI)
    fix i assume "i < length (l_data ?nl) div 32"
    then have "i = 0 \<or> i = Suc 0" by (simp add: len two)
    then show "(let p = unpack_sint (field 0 4 (field (i * 32) 32 (l_data ?nl))) in
           - int (length (l_data ?pl) div 20) \<le> p \<and> p < int (length (l_data ?pl) div 20))
      \<and> (let c = unpack_sint (field 4 4 (field (i * 32) 32 (l_data ?nl))) in
           (c < 0 \<longrightarrow> - 1 - c < int (length (l_data ?ll) div leaf_size 20))
           \<and> (0 \<le> c \<longrightarrow> c < int (length (l_data ?nl) div 32)))
      \<and> (let c = unpack_sint (field 8 4 (field (i * 32) 32 (l_data ?nl))) in
           (c < 0 \<longrightarrow> - 1 - c < int (length (l_data ?ll) div leaf_size 20))
           \<and> (0 \<le> c \<longrightarrow> c < int (length (l_data ?nl) div 32)))"
      by (auto simp: len leaf_size_def tree_nodes_fields Let_def)
  qed
  from vis_tree_links_children [OF pl nl ll ver _ _ _ _ rng]
  obtain r where ok: "vis_tree tree_bsp = Inr r" and root: "root r = 0"
    and n: "length (tree_nodes r) = 2" and l: "length (tree_leafs r) = 2"
    and leafs: "\<forall>k<length (tree_leafs r).
          tree_leafs r ! k = leaf_of (int k) (field (k * leaf_size 20) (leaf_size 20) (l_data ?ll))"
    and nodes: "\<forall>i<length (tree_nodes r).
          (let c = unpack_sint (field 4 4 (field (i * 32) 32 (l_data ?nl))) in
             child_neg (tree_nodes r ! i)
               = Some (if c < 0 then ChildLeaf (nat (- 1 - c)) else ChildNode (nat c)))
        \<and> (let c = unpack_sint (field 8 4 (field (i * 32) 32 (l_data ?nl))) in
             child_pos (tree_nodes r ! i)
               = Some (if c < 0 then ChildLeaf (nat (- 1 - c)) else ChildNode (nat c)))"
    by (auto simp: len leaf_size_def)
  from nodes n have n0: "child_neg (tree_nodes r ! 0) = Some (ChildLeaf 0)"
      "child_pos (tree_nodes r ! 0) = Some (ChildNode 1)"
    by (auto simp: tree_nodes_fields Let_def)
  from nodes n have "Suc 0 < length (tree_nodes r)" by simp
  with nodes have n1: "child_neg (tree_nodes r ! 1) = Some (ChildLeaf 1)"
      "child_pos (tree_nodes r ! 1) = Some (ChildLeaf 0)"
    by (auto simp: tree_nodes_fields Let_def)
  from leafs l have l0: "tree_leafs r ! 0 = leaf_of 0 (replicate 32 0)"
    by (auto simp: leaf_size_def field_def)
  from ok root n l n0 n1 l0 show ?thesis by blast
qed

section \<open>Properties of the entity lump\<close>

lemma split_lines_LF:
  "(cr \<longrightarrow> acc = []) \<Longrightarrow>
   split_lines cr acc (xs @ 0x0A # ys)
     = split_lines cr acc (xs @ [0x0A]) @ split_lines False [] ys"
proof (induction xs arbitrary: cr acc)
  case Nil
  then show ?case by auto
next
  case (Cons x xs)
  have IH1: "split_lines False a (xs @ 0x0A # ys)
             = split_lines False a (xs @ [0x0A]) @ split_lines False [] ys" for a
    using Cons.IH [of False a] by simp
  have IH2: "split_lines True [] (xs @ 0x0A # ys)
             = split_lines True [] (xs @ [0x0A]) @ split_lines False [] ys"
    using Cons.IH [of True "[]"] by simp
  show ?case
    using Cons.prems IH1 [of acc] IH1 [of "[]"] IH1 [of "acc @ [x]"] IH2
    by auto
qed

lemma splitlines_LF:
  "splitlines (xs @ 0x0A # ys) = splitlines (xs @ [0x0A]) @ splitlines ys"
  using split_lines_LF [of False "[]" xs ys] by (simp add: splitlines_def)

lemma ent_line_NUL:
  "ent_line L [0x00] vmf cur seen =
     Return (case cur of
               NoEnt \<Rightarrow> Inr vmf
             | _ \<Rightarrow> Inl (ValueError ''Last entity didn't end!''))"
  by (simp add: ent_line_def split: cur_ent.splits)

lemma ent_lines_NUL:
  "ent_lines L (ls1 @ [0x00] # ls2) vmf cur seen = ent_lines L (ls1 @ [[0x00]]) vmf cur seen"
proof (induction ls1 arbitrary: vmf cur seen)
  case Nil
  show ?case by (simp add: ent_line_NUL)
next
  case (Cons l ls1)
  show ?case
    by (simp add: Cons.IH split: control.splits)
qed

lemma split_lines_True:
  "ys = [] \<or> hd ys \<noteq> 0x0A \<Longrightarrow> split_lines True [] ys = split_lines False [] ys"
  by (cases ys) auto

lemma split_lines_CR:
  "(cr \<longrightarrow> acc = []) \<Longrightarrow> ys = [] \<or> hd ys \<noteq> 0x0A \<Longrightarrow>
   split_lines cr acc (xs @ 0x0D # ys)
     = split_lines cr acc (xs @ [0x0D]) @ split_lines False [] ys"
proof (induction xs arbitrary: cr acc)
  case Nil
  then show ?case using split_lines_True [of ys] by auto
next
  case (Cons x xs)
  have IH1: "split_lines False a (xs @ 0x0D # ys)
             = split_lines False a (xs @ [0x0D]) @ split_lines False [] ys" for a
    using Cons.IH [of False a] Cons.prems(2) by simp
  have IH2: "split_lines True [] (xs @ 0x0D # ys)
             = split_lines True [] (xs @ [0x0D]) @ split_lines False [] ys"
    using Cons.IH [of True "[]"] Cons.prems(2) by simp
  show ?case
    using Cons.prems(1) IH1 [of acc] IH1 [of "[]"] IH1 [of "acc @ [x]"] IH2
    by auto
qed

lemma splitlines_at_break:
  assumes pre: "pre = [] \<or> last pre = 0x0A \<or> last pre = 0x0D"
    and ys: "ys = [] \<or> hd ys \<noteq> 0x0A"
  shows "splitlines (pre @ ys) = splitlines pre @ splitlines ys"
proof (cases "pre = []")
  case True
  then show ?thesis by (simp add: splitlines_def)
next
  case False
  then obtain xs b where p: "pre = xs @ [b]" by (metis append_butlast_last_id)
  with pre False have b: "b = 0x0A \<or> b = 0x0D" by simp
  then show ?thesis
  proof
    assume "b = 0x0A"
    then show ?thesis using splitlines_LF [of xs ys] by (simp add: p)
  next
    assume "b = 0x0D"
    then show ?thesis
      using split_lines_CR [of False "[]" ys xs] ys by (simp add: p splitlines_def)
  qed
qed

lemma splitlines_NUL_break:
  "b = 0x0A \<or> b = 0x0D \<Longrightarrow>
   splitlines (0x00 # b # post) = [0x00] # split_lines (b = 0x0D) [] post"
  by (auto simp: splitlines_def)

lemma split_lines_acc:
  "\<exists>xs rest. split_lines False (a # acc) d = (a # acc @ xs) # rest"
proof (induction d arbitrary: acc)
  case Nil
  show ?case by simp
next
  case (Cons c d)
  from Cons.IH [of "acc @ [c]"] show ?case by auto
qed

lemma splitlines_NUL_data:
  "x \<noteq> 0x0A \<Longrightarrow> x \<noteq> 0x0D \<Longrightarrow> \<exists>xs rest. splitlines (0x00 # x # d) = (0x00 # x # xs) # rest"
  using split_lines_acc [of 0 "[x]" d] by (simp add: splitlines_def)

lemma ent_line_Return_error:
  "line \<noteq> [0x00] \<Longrightarrow> ent_line L line vmf cur seen = Return r \<Longrightarrow> \<exists>e. r = Inl e"
  by (auto simp: ent_line_def split: if_splits cur_ent.splits sum.splits)

lemma ent_line_NUL_data:
  "ent_line L (0x00 # x # xs) vmf NoEnt seen
     = Return (Inl (ValueError ''Keyvalue outside brackets!''))"
  by (simp add: ent_line_def)

lemma ent_lines_NUL_data:
  "[0x00] \<notin> set ls \<Longrightarrow> ent_lines L (ls @ [[0x00]]) vmf cur seen = Inr v \<Longrightarrow>
   ent_lines L (ls @ (0x00 # x # xs) # rest) vmf cur seen
     = Inl (ValueError ''Keyvalue outside brackets!'')"
proof (induction ls arbitrary: vmf cur seen)
  case Nil
  then have "cur = NoEnt" by (auto simp: ent_line_NUL split: cur_ent.splits)
  then show ?case by (simp add: ent_line_NUL_data)
next
  case (Cons l ls)
  from Cons.prems(1) have l: "l \<noteq> [0x00]" and ls: "[0x00] \<notin> set ls" by auto
  show ?case
  proof (cases "ent_line L l vmf cur seen")
    case (Return r)
    with ent_line_Return_error [OF l Return] Cons.prems(2) show ?thesis by auto
  next
    case (Next vmf' cur' seen')
    with Cons.prems(2) have "ent_lines L (ls @ [[0x00]]) vmf' cur' seen' = Inr v" by simp
    from Cons.IH [OF ls this] Next show ?thesis by simp
  qed
qed

text \<open>
  Claim C8, as the code has it. Let the NUL start a line: it is the first byte of the
  lump or follows a line break. When a line break (LF or CR, so CR LF too) follows
  it, the NUL is a line of its own and what comes after is never looked at: the lump is
  read exactly as the lump that ends with that NUL. When instead more data follows on
  the same line, and the lump up to the NUL is read without error and has no NUL line
  before, \<open>read_ent_data\<close> raises the ValueError of a key/value outside brackets. At a
  line that is the single byte NUL the loop returns: the VMF when no entity is open, the
  ValueError of an entity that did not end otherwise.
\<close>

theorem read_ent_data_after_NUL:
  assumes pre: "pre = [] \<or> last pre = 0x0A \<or> last pre = 0x0D"
  shows "(b = 0x0A \<or> b = 0x0D \<longrightarrow>
            read_ent_data L (pre @ 0x00 # b # post) = read_ent_data L (pre @ [0x00]))
     \<and> (read_ent_data L (pre @ [0x00]) = Inr v \<and> [0x00] \<notin> set (splitlines pre)
          \<and> x \<noteq> 0x0A \<and> x \<noteq> 0x0D \<longrightarrow>
            read_ent_data L (pre @ 0x00 # x # post)
              = Inl (ValueError ''Keyvalue outside brackets!''))
     \<and> ent_line L [0x00] vmf cur seen
          = Return (case cur of
                      NoEnt \<Rightarrow> Inr vmf
                    | _ \<Rightarrow> Inl (ValueError ''Last entity didn't end!''))"
proof -
  have "splitlines (pre @ [0x00]) = splitlines pre @ splitlines [0x00]"
    by (rule splitlines_at_break [OF pre]) simp
  moreover have "splitlines [0x00] = [[0x00]]" by (simp add: splitlines_def)
  ultimately have nul: "splitlines (pre @ [0x00]) = splitlines pre @ [[0x00]]"
    by (simp only:)
  have 1: "read_ent_data L (pre @ 0x00 # b # post) = read_ent_data L (pre @ [0x00])"
    if b: "b = 0x0A \<or> b = 0x0D"
  proof -
    have "splitlines (pre @ 0x00 # b # post) = splitlines pre @ splitlines (0x00 # b # post)"
      by (rule splitlines_at_break [OF pre]) simp
    then have sp: "splitlines (pre @ 0x00 # b # post)
          = splitlines pre @ [0x00] # split_lines (b = 0x0D) [] post"
      by (simp only: splitlines_NUL_break [OF b])
    show ?thesis
      unfolding read_ent_data_def nul sp by (rule ent_lines_NUL)
  qed
  have 2: "read_ent_data L (pre @ 0x00 # x # post)
              = Inl (ValueError ''Keyvalue outside brackets!'')"
    if ok: "read_ent_data L (pre @ [0x00]) = Inr v" and no: "[0x00] \<notin> set (splitlines pre)"
      and x: "x \<noteq> 0x0A" "x \<noteq> 0x0D"
  proof -
    from splitlines_NUL_data [OF x] obtain xs rest where
      "splitlines (0x00 # x # post) = (0x00 # x # xs) # rest" by blast
    moreover have "splitlines (pre @ 0x00 # x # post)
        = splitlines pre @ splitlines (0x00 # x # post)"
      by (rule splitlines_at_break [OF pre]) simp
    ultimately have "splitlines (pre @ 0x00 # x # post)
        = splitlines pre @ (0x00 # x # xs) # rest"
      by (simp only:)
    moreover from ok have "ent_lines L (splitlines pre @ [[0x00]]) VMF NoEnt False = Inr v"
      by (simp add: read_ent_data_def nul)
    ultimately show ?thesis
      unfolding read_ent_data_def using ent_lines_NUL_data [OF no] by simp
  qed
  show ?thesis
  proof (intro conjI impI)
    assume "b = 0x0A \<or> b = 0x0D"
    then show "read_ent_data L (pre @ 0x00 # b # post) = read_ent_data L (pre @ [0x00])"
      by (rule 1)
  next
    assume a: "read_ent_data L (pre @ [0x00]) = Inr v \<and> [0x00] \<notin> set (splitlines pre)
          \<and> x \<noteq> 0x0A \<and> x \<noteq> 0x0D"
    from a have ok: "read_ent_data L (pre @ [0x00]) = Inr v" by (rule conjunct1)
    from a have no: "[0x00] \<notin> set (splitlines pre)" by (elim conjE)
    from a have x1: "x \<noteq> 0x0A" by (elim conjE)
    from a have x2: "x \<noteq> 0x0D" by (elim conjE)
    show "read_ent_data L (pre @ 0x00 # x # post)
              = Inl (ValueError ''Keyvalue outside brackets!'')"
      by (rule 2 [OF ok no x1 x2])
  next
    show "ent_line L [0x00] vmf cur seen
          = Return (case cur of
                      NoEnt \<Rightarrow> Inr vmf
                    | _ \<Rightarrow> Inl (ValueError ''Last entity didn't end!''))"
      by (rule ent_line_NUL)
  qed
qed

lemma ws_lump_read: "read_ent_data no_outputs (ws_lump @ [0x00]) = Inr ws_vmf"
  by code_simp

lemma ws_lump_lines: "[0x00] \<notin> set (splitlines ws_lump)"
  by code_simp

text \<open>
  A run of the theorem on the lump of the worldspawn entity: a line break and \<open>abc\<close>
  after the NUL, and \<open>abc\<close> on the line of the NUL.
\<close>

theorem read_ent_data_after_NUL_witness:
  "read_ent_data no_outputs (ws_lump @ [0x00]) = Inr ws_vmf
   \<and> read_ent_data no_outputs (ws_lump @ [0x00, 0x0A, 0x61, 0x62, 0x63]) = Inr ws_vmf
   \<and> read_ent_data no_outputs (ws_lump @ [0x00, 0x0D, 0x0A, 0x61, 0x62, 0x63]) = Inr ws_vmf
   \<and> read_ent_data no_outputs (ws_lump @ [0x00, 0x61, 0x62, 0x63])
       = Inl (ValueError ''Keyvalue outside brackets!'')"
proof -
  have pre: "ws_lump = [] \<or> last ws_lump = 0x0A \<or> last ws_lump = 0x0D"
    by (simp add: ws_lump_def)
  have lf: "read_ent_data no_outputs (ws_lump @ [0x00, 0x0A, 0x61, 0x62, 0x63])
      = read_ent_data no_outputs (ws_lump @ [0x00])"
    using read_ent_data_after_NUL [OF pre, where L = no_outputs and b = "0x0A"
        and post = "[0x61, 0x62, 0x63]", THEN conjunct1]
    by simp
  have cr: "read_ent_data no_outputs (ws_lump @ [0x00, 0x0D, 0x0A, 0x61, 0x62, 0x63])
      = read_ent_data no_outputs (ws_lump @ [0x00])"
    using read_ent_data_after_NUL [OF pre, where L = no_outputs and b = "0x0D"
        and post = "[0x0A, 0x61, 0x62, 0x63]", THEN conjunct1]
    by simp
  have same: "read_ent_data no_outputs (ws_lump @ [0x00, 0x61, 0x62, 0x63])
      = Inl (ValueError ''Keyvalue outside brackets!'')"
    using read_ent_data_after_NUL [OF pre, where L = no_outputs and v = ws_vmf
        and x = "0x61" and post = "[0x62, 0x63]", THEN conjunct2, THEN conjunct1]
      ws_lump_read ws_lump_lines
    by simp
  show ?thesis
    by (simp only: lf cr same ws_lump_read simp_thms)
qed

text \<open>
  Claim C8 as stated has \<open>read_ent_data\<close> fail on data after the final NUL: the lump
  \<open>\x00\nabc\<close> is read without error.
\<close>

theorem read_ent_data_after_NUL_counterexample:
  "read_ent_data no_outputs [0x00, 0x0A, 0x61, 0x62, 0x63] = Inr VMF"
proof -
  have "splitlines [0x00, 0x0A, 0x61, 0x62, 0x63] = [[0x00], [0x61, 0x62, 0x63]]"
    by (simp add: splitlines_def)
  then show ?thesis
    by (simp add: read_ent_data_def ent_line_NUL)
qed

lemma split_kv_2: "split_kv 2 acc rest = split_kv (Suc (Suc 0)) acc rest"
  by (simp add: numeral_2_eq_2)

lemma out_line_key: "decode_ascii [0x4F, 0x6E, 0x55, 0x73, 0x65] = Inr ''OnUse''"
  by code_simp

lemma out_line_value:
  "decode_ascii [0x61, 0x1D, 0x62, 0x1D, 0x63, 0x1D, 0x30, 0x1D, 0x2D, 0x31]
     = Inr [CHR ''a'', CHR 0x1D, CHR ''b'', CHR 0x1D, CHR ''c'', CHR 0x1D, CHR ''0'',
            CHR 0x1D, CHR ''-'', CHR ''1'']"
  by code_simp

text \<open>
  Claim C2 has a value containing the byte 0x1D parsed as an output. The code tests for
  the byte 27 (0x1B): the line \<open>"OnUse" "a\x1db\x1dc\x1d0\x1d-1"\<close>, whose value holds
  0x1D four times and no comma, is stored as a plain key/value pair, whatever
  \<open>Output.parse\<close> does.
\<close>

theorem ent_keyvalue_0x1D_stored_plain:
  "ent_keyvalue L out_line e =
     Inr (ent_set ''OnUse''
            [CHR ''a'', CHR 0x1D, CHR ''b'', CHR 0x1D, CHR ''c'', CHR 0x1D, CHR ''0'',
             CHR 0x1D, CHR ''-'', CHR ''1''] e)"
  by (simp add: ent_keyvalue_def out_line_def split_kv_2 out_line_key out_line_value)

section \<open>Properties of the container\<close>

lemma length_le_bytes: "length (le_bytes n v) = n"
  by (induction n arbitrary: v) auto

lemma le_nat_le_bytes: "le_nat (le_bytes n v) = nat (v mod 2 ^ (8 * n))"
proof (induction n arbitrary: v)
  case 0
  show ?case by simp
next
  case (Suc n)
  have a: "unat (word_of_int v :: 8 word) = nat (v mod 256)"
    by (simp add: unat_eq_nat_uint uint_word_of_int take_bit_eq_mod)
  have b: "v mod (256 * 2 ^ (8 * n)) = 256 * (v div 256 mod 2 ^ (8 * n)) + v mod 256"
    by (rule zmod_zmult2_eq) simp
  have c: "(2::int) ^ (8 * Suc n) = 256 * 2 ^ (8 * n)"
    by (simp add: power_add)
  have nn: "0 \<le> v mod 256" "0 \<le> v div 256 mod 2 ^ (8 * n)" by simp_all
  have "le_nat (le_bytes (Suc n) v)
          = nat (v mod 256) + 256 * nat (v div 256 mod 2 ^ (8 * n))"
    by (simp add: Suc.IH a)
  also have "\<dots> = nat (256 * (v div 256 mod 2 ^ (8 * n)) + v mod 256)"
    using nn by (simp add: nat_add_distrib nat_mult_distrib)
  also have "\<dots> = nat (v mod (256 * 2 ^ (8 * n)))"
    by (simp only: b)
  also have "\<dots> = nat (v mod 2 ^ (8 * Suc n))"
    by (simp only: c)
  finally show ?case .
qed

lemma unpack_uint_le_bytes:
  "0 \<le> v \<Longrightarrow> v < 2 ^ (8 * n) \<Longrightarrow> unpack_uint (le_bytes n v) = v"
  by (simp add: unpack_uint_def le_nat_le_bytes)

lemma unpack_sint_le_bytes_nonneg:
  "0 \<le> v \<Longrightarrow> 2 * v < 2 ^ (8 * n) \<Longrightarrow> unpack_sint (le_bytes n v) = v"
  by (simp add: unpack_sint_def le_nat_le_bytes length_le_bytes Let_def)

lemma unpack_sint_le_bytes_neg:
  "v < 0 \<Longrightarrow> - (2 ^ (8 * n)) \<le> 2 * v \<Longrightarrow> unpack_sint (le_bytes n v) = v"
proof -
  assume neg: "v < 0" and lo: "- (2 ^ (8 * n)) \<le> 2 * v"
  let ?m = "(2::int) ^ (8 * n)"
  have m: "0 < ?m" by simp
  have "v mod ?m = v + ?m"
  proof -
    have "0 \<le> v + ?m" "v + ?m < ?m" using neg lo by auto
    then have "(v + ?m) mod ?m = v + ?m" by (rule mod_pos_pos_trivial)
    moreover have "(v + ?m) mod ?m = v mod ?m" by simp
    ultimately show ?thesis by simp
  qed
  then show ?thesis
    using neg lo by (simp add: unpack_sint_def le_nat_le_bytes length_le_bytes Let_def)
qed


lemma struct_read_at:
  "length d = n \<Longrightarrow> struct_read n (pre @ d @ post) (length pre) = Inr (d, length pre + n)"
  by (simp add: struct_read_def)

lemma read_index_concat:
  "(\<forall>i\<in>set idxs. length (e i) = 16) \<Longrightarrow>
   read_index (pre @ concat (map e idxs) @ post) idxs (length pre) ls offs =
     Inr (length pre + 16 * length idxs,
          foldl (\<lambda>l i. dict_set i (Lump i (unpack_sint (take 4 (drop 8 (e i))))
                                         (take 4 (drop 12 (e i)))) l) ls idxs,
          foldl (\<lambda>f i. dict_set i (unpack_sint (take 4 (e i)),
                                    unpack_sint (take 4 (drop 4 (e i)))) f) offs idxs)"
proof (induction idxs arbitrary: pre ls offs)
  case Nil
  show ?case by simp
next
  case (Cons i idxs)
  from Cons.prems have len: "length (e i) = 16"
    and rest: "\<forall>j\<in>set idxs. length (e j) = 16" by simp_all
  have fl: "pre @ concat (map e (i # idxs)) @ post
              = (pre @ e i) @ concat (map e idxs) @ post" by simp
  have sr: "struct_read 16 (pre @ concat (map e (i # idxs)) @ post) (length pre)
            = Inr (e i, length pre + 16)"
    using struct_read_at [OF len, of pre "concat (map e idxs) @ post"] by simp
  have pos: "length pre + 16 = length (pre @ e i)" by (simp add: len)
  show ?case
    apply (simp only: read_index.simps sr sum.case prod.case)
    apply (simp only: fl pos Cons.IH [OF rest])
    apply (simp add: len)
    done
qed

lemma dict_set_fresh: "k \<notin> fst ` set ls \<Longrightarrow> dict_set k v ls = ls @ [(k, v)]"
  by (induction ls) auto

lemma foldl_dict_set_fresh:
  "distinct idxs \<Longrightarrow> (\<forall>i\<in>set idxs. i \<notin> fst ` set ls) \<Longrightarrow>
   foldl (\<lambda>l i. dict_set i (g i) l) ls idxs = ls @ map (\<lambda>i. (i, g i)) idxs"
proof (induction idxs arbitrary: ls)
  case Nil
  show ?case by simp
next
  case (Cons i idxs)
  from Cons.prems have fresh: "i \<notin> fst ` set ls" by simp
  from Cons.prems have d: "distinct idxs"
    and r: "\<forall>j\<in>set idxs. j \<notin> fst ` set (ls @ [(i, g i)])" by auto
  show ?case
    by (simp add: dict_set_fresh [OF fresh] Cons.IH [OF d r])
qed

lemma map_of_map_key:
  "map_of (map (\<lambda>i. (i, g i)) idxs) k = (if k \<in> set idxs then Some (g k) else None)"
  by (induction idxs) auto

lemma dict_get_map_key:
  "k \<in> set idxs \<Longrightarrow> dict_get (map (\<lambda>i. (i, g i)) idxs) k = Inr (g k)"
  by (simp add: dict_get_def map_of_map_key)

lemma dict_set_map_key:
  "distinct idxs \<Longrightarrow> k \<in> set idxs \<Longrightarrow>
   dict_set k v (map (\<lambda>i. (i, g i)) idxs) = map (\<lambda>i. (i, if i = k then v else g i)) idxs"
  by (induction idxs) auto

lemma read_data_map:
  "(\<forall>i\<in>set idxs. dict_get offs (l_type (L i)) = Inr (f i, n i) \<and> 0 \<le> f i \<and> 0 \<le> n i) \<Longrightarrow>
   read_data file offs (map (\<lambda>i. (i, L i)) idxs) =
     Inr (map (\<lambda>i. (i, (L i)\<lparr>l_data := take (nat (n i)) (drop (nat (f i)) file)\<rparr>)) idxs)"
  by (induction idxs) (auto simp: seek_def file_read_def)

lemma read_structured:
  assumes e: "\<forall>i<64. length (e i) = 16 \<and> 0 \<le> unpack_sint (take 4 (e i))
                    \<and> 0 \<le> unpack_sint (take 4 (drop 4 (e i)))"
    and hv: "length hv = 4" and rv: "length rv = 4"
    and fl: "file = BSP_MAGIC @ hv @ concat (map e [0..<64]) @ rv @ rest"
  shows "read None file =
     (let datum = (\<lambda>i. take (nat (unpack_sint (take 4 (drop 4 (e i)))))
                          (drop (nat (unpack_sint (take 4 (e i)))) file)) in
      case unpack_from 4 (datum GAME_LUMP) 0 of
        Inl x \<Rightarrow> Inl x
      | Inr c \<Rightarrow>
     (case read_game_lumps file (datum GAME_LUMP) (nat (unpack_sint c)) 4 [] of
        Inl x \<Rightarrow> Inl x
      | Inr gls \<Rightarrow>
          Inr \<lparr> version = Some (case VERSIONS (unpack_sint hv) of
                                  Some m \<Rightarrow> VEnum m
                                | None \<Rightarrow> VInt (unpack_sint hv)),
                map_revision = unpack_sint rv,
                lumps = map (\<lambda>i. (i, \<lparr> l_type = i,
                                        l_version = unpack_sint (take 4 (drop 8 (e i))),
                                        l_ident = take 4 (drop 12 (e i)),
                                        l_data = (if i = GAME_LUMP then [] else datum i) \<rparr>))
                            [0..<64],
                game_lumps = gls \<rparr>))"
proof -
  let ?dir = "concat (map e [0..<64])"
  let ?L = "\<lambda>i. Lump i (unpack_sint (take 4 (drop 8 (e i)))) (take 4 (drop 12 (e i)))"
  let ?O = "\<lambda>i. (unpack_sint (take 4 (e i)), unpack_sint (take 4 (drop 4 (e i))))"
  let ?datum = "\<lambda>i. take (nat (unpack_sint (take 4 (drop 4 (e i)))))
                          (drop (nat (unpack_sint (take 4 (e i)))) file)"
  have len16: "\<forall>i\<in>set [0..<64]. length (e i) = 16" using e by simp
  have magic: "length BSP_MAGIC = 4" by (simp add: BSP_MAGIC_def)
  have h: "struct_read 8 file 0 = Inr (BSP_MAGIC @ hv, 8)"
    using struct_read_at [of "BSP_MAGIC @ hv" 8 "[]" "?dir @ rv @ rest"]
    by (simp add: fl magic hv)
  have idx: "read_index file BSP_LUMPS 8 [] [] =
      Inr (8 + 16 * 64, map (\<lambda>i. (i, ?L i)) [0..<64], map (\<lambda>i. (i, ?O i)) [0..<64])"
    using read_index_concat [OF len16, of "BSP_MAGIC @ hv" "rv @ rest" "[]" "[]"]
    by (simp add: fl magic hv BSP_LUMPS_def foldl_dict_set_fresh)
  have dirlen: "length ?dir = 16 * 64"
  proof -
    have "map (length \<circ> e) [0..<64] = map (\<lambda>i. 16) [0..<64]"
      using e by (intro map_cong) auto
    then show ?thesis by (simp add: length_concat sum_list_replicate map_replicate_const)
  qed
  have rev: "struct_read 4 file (8 + 16 * 64) = Inr (rv, 8 + 16 * 64 + 4)"
    using struct_read_at [of rv 4 "BSP_MAGIC @ hv @ ?dir" rest]
    by (simp add: fl magic hv rv dirlen)
  have data: "read_data file (map (\<lambda>i. (i, ?O i)) [0..<64]) (map (\<lambda>i. (i, ?L i)) [0..<64])
      = Inr (map (\<lambda>i. (i, (?L i)\<lparr>l_data := ?datum i\<rparr>)) [0..<64])"
    using e
    by (intro read_data_map) (auto simp: Lump_def dict_get_map_key)
  have gl: "dict_get (map (\<lambda>i. (i, (?L i)\<lparr>l_data := ?datum i\<rparr>)) [0..<64]) GAME_LUMP
      = Inr ((?L GAME_LUMP)\<lparr>l_data := ?datum GAME_LUMP\<rparr>)"
    by (rule dict_get_map_key) (simp add: GAME_LUMP_def)
  have fin: "dict_set GAME_LUMP (((?L GAME_LUMP)\<lparr>l_data := ?datum GAME_LUMP\<rparr>)\<lparr>l_data := []\<rparr>)
        (map (\<lambda>i. (i, (?L i)\<lparr>l_data := ?datum i\<rparr>)) [0..<64])
      = map (\<lambda>i. (i, \<lparr> l_type = i,
                            l_version = unpack_sint (take 4 (drop 8 (e i))),
                            l_ident = take 4 (drop 12 (e i)),
                            l_data = (if i = GAME_LUMP then [] else ?datum i) \<rparr>)) [0..<64]"
    by (subst dict_set_map_key) (auto simp: GAME_LUMP_def Lump_def)
  have m: "take 4 (BSP_MAGIC @ hv) = BSP_MAGIC" "drop 4 (BSP_MAGIC @ hv) = hv"
    by (simp_all add: magic)
  show ?thesis
    unfolding read_def h
    apply (simp only: sum.case prod.case Let_def m if_False not_not refl option.case idx rev
        data gl fin)
    apply (simp add: Let_def split: option.splits sum.splits)
    done
qed

lemma pack_i32_length: "pack_i32 v = Inr b \<Longrightarrow> length b = 4"
  by (auto simp: pack_i32_def length_le_bytes split: if_splits)

lemma length_pack_4s: "length (pack_4s bs) = 4"
  by (simp add: pack_4s_def)

lemma tell_file_write: "tell (file_write d w) = tell w + length d"
  by (simp add: tell_def file_write_def)

lemma write_headers_upt:
  "(\<forall>i. a \<le> i \<and> i < b \<longrightarrow> dict_get ls i = Inr (L i) \<and> pack_i32 (l_version (L i)) = Inr (V i)) \<Longrightarrow>
   (\<forall>i. a \<le> i \<and> i < b \<longrightarrow> KLump i \<notin> fst ` set (d_loc w)) \<Longrightarrow>
   write_headers ls [a..<b] w =
     Inr (w\<lparr>out := out w @ concat (map (\<lambda>i. replicate 8 0 @ V i @ pack_4s (l_ident (L i))) [a..<b]),
            d_loc := d_loc w @ map (\<lambda>i. (KLump i, (tell w + 16 * (i - a), 2))) [a..<b]\<rparr>)"
proof (induction "b - a" arbitrary: a w)
  case 0
  then show ?case by simp
next
  case (Suc n)
  from Suc.hyps(2) have ab: "a < b" and n: "n = b - Suc a" by simp_all
  let ?h = "\<lambda>i. replicate 8 0 @ V i @ pack_4s (l_ident (L i))"
  let ?w = "file_write (?h a) (defer_key_at (KLump a) 2 False w)"
  from Suc.prems(1) ab have La: "dict_get ls a = Inr (L a)"
    and Va: "pack_i32 (l_version (L a)) = Inr (V a)" by simp_all
  from Suc.prems(2) ab have fresh: "KLump a \<notin> fst ` set (d_loc w)" by simp
  have loc: "d_loc ?w = d_loc w @ [(KLump a, (tell w, 2))]"
    by (simp add: file_write_def defer_key_at_def dict_set_fresh [OF fresh])
  have outw: "out ?w = out w @ ?h a"
    by (simp add: file_write_def defer_key_at_def)
  have tellw: "tell ?w = tell w + 16"
    by (simp add: tell_def outw pack_i32_length [OF Va] length_pack_4s)
  have dat: "d_data ?w = d_data w"
    by (simp add: file_write_def defer_key_at_def)
  have p1: "\<forall>i. Suc a \<le> i \<and> i < b \<longrightarrow>
      dict_get ls i = Inr (L i) \<and> pack_i32 (l_version (L i)) = Inr (V i)"
    using Suc.prems(1) by simp
  have p2: "\<forall>i. Suc a \<le> i \<and> i < b \<longrightarrow> KLump i \<notin> fst ` set (d_loc ?w)"
    using Suc.prems(2) by (auto simp: loc)
  have shift: "map (\<lambda>i. (KLump i, (tell ?w + 16 * (i - Suc a), 2::nat))) [Suc a..<b]
             = map (\<lambda>i. (KLump i, (tell w + 16 * (i - a), 2))) [Suc a..<b]"
    by (rule map_cong) (auto simp: tellw)
  have step: "write_headers ls [a..<b] w = write_headers ls [Suc a..<b] ?w"
    by (simp add: upt_conv_Cons [OF ab] La Va)
  show ?case
    unfolding step Suc.hyps(1) [OF n p1 p2] shift
    by (simp add: upt_conv_Cons [OF ab] outw loc dat)
qed

lemma write_at_here:
  "length d = length pt + k \<Longrightarrow>
   write_at (length pre) pt (pre @ d @ post) = pre @ pt @ drop (length pt) d @ post"
  by (simp add: write_at_def)

lemma defer_write_upt:
  "(\<forall>i. a \<le> i \<and> i < b \<longrightarrow>
        length (h i) = 16 \<and> map_of dat (KLump i) = Some (pt i) \<and> length (pt i) = 8) \<Longrightarrow>
   defer_write (map (\<lambda>i. (KLump i, (length pre + 16 * (i - a), fmt))) [a..<b]) dat
       (pre @ concat (map h [a..<b]) @ post)
     = Inr (pre @ concat (map (\<lambda>i. pt i @ drop 8 (h i)) [a..<b]) @ post)"
proof (induction "b - a" arbitrary: a pre)
  case 0
  then show ?case by simp
next
  case (Suc n)
  from Suc.hyps(2) have ab: "a < b" and n: "n = b - Suc a" by simp_all
  from Suc.prems ab have ha: "length (h a) = 16" and da: "map_of dat (KLump a) = Some (pt a)"
    and pa: "length (pt a) = 8" by simp_all
  let ?pre = "pre @ pt a @ drop 8 (h a)"
  have lp: "length ?pre = length pre + 16" by (simp add: ha pa)
  have p1: "\<forall>i. Suc a \<le> i \<and> i < b \<longrightarrow>
        length (h i) = 16 \<and> map_of dat (KLump i) = Some (pt i) \<and> length (pt i) = 8"
    using Suc.prems by simp
  have shift: "map (\<lambda>i. (KLump i, (length pre + 16 * (i - a), fmt))) [Suc a..<b]
             = map (\<lambda>i. (KLump i, (length ?pre + 16 * (i - Suc a), fmt))) [Suc a..<b]"
    by (rule map_cong) (auto simp: ha pa)
  have wa: "write_at (length pre) (pt a) (pre @ h a @ concat (map h [Suc a..<b]) @ post)
            = ?pre @ concat (map h [Suc a..<b]) @ post"
    using write_at_here [of "h a" "pt a" 8 pre "concat (map h [Suc a..<b]) @ post"]
    by (simp add: ha pa)
  have ih: "defer_write
        (map (\<lambda>i. (KLump i, (length ?pre + 16 * (i - Suc a), fmt))) [Suc a..<b]) dat
        (?pre @ concat (map h [Suc a..<b]) @ post)
      = Inr (?pre @ concat (map (\<lambda>i. pt i @ drop 8 (h i)) [Suc a..<b]) @ post)"
    using Suc.hyps(1) [OF n p1, of ?pre] .
  have step: "defer_write
        (map (\<lambda>i. (KLump i, (length pre + 16 * (i - a), fmt))) [a..<b]) dat
        (pre @ concat (map h [a..<b]) @ post)
      = defer_write
        (map (\<lambda>i. (KLump i, (length ?pre + 16 * (i - Suc a), fmt))) [Suc a..<b]) dat
        (?pre @ concat (map h [Suc a..<b]) @ post)"
    unfolding shift [symmetric]
    by (simp add: upt_conv_Cons [OF ab] da wa)
  show ?case
    unfolding step ih by (simp add: upt_conv_Cons [OF ab])
qed

lemma write_lumps_append:
  "write_lumps ls gls (xs @ ys) w =
     (case write_lumps ls gls xs w of Inl e \<Rightarrow> Inl e | Inr w' \<Rightarrow> write_lumps ls gls ys w')"
  by (induction xs arbitrary: w) (auto simp: Let_def split: sum.splits)

lemma file_write_Nil: "file_write [] w = w"
  by (simp add: file_write_def)

lemma map_of_foldl_dict_set:
  "map_of (foldl (\<lambda>d i. dict_set (K i) X d) d0 idxs) k =
     (if k \<in> K ` set idxs then Some X else map_of d0 k)"
  by (induction idxs arbitrary: d0) (auto simp: map_of_dict_set)

lemma write_lumps_empty:
  "(\<forall>i\<in>set idxs. i \<noteq> GAME_LUMP \<and> dict_get ls i = Inr (L i) \<and> l_data (L i) = []
        \<and> (\<exists>p. map_of (d_loc w) (KLump i) = Some (p, 2))) \<Longrightarrow>
   pack_i32 (int (tell w)) = Inr P \<Longrightarrow>
   write_lumps ls gls idxs w =
     Inr (w\<lparr>d_data := foldl (\<lambda>d i. dict_set (KLump i) (P @ le_bytes 4 0) d) (d_data w) idxs\<rparr>)"
proof (induction idxs arbitrary: w)
  case Nil
  show ?case by simp
next
  case (Cons i idxs)
  from Cons.prems(1) obtain p where i: "i \<noteq> GAME_LUMP" "dict_get ls i = Inr (L i)"
    "l_data (L i) = []" "map_of (d_loc w) (KLump i) = Some (p, 2)" by auto
  let ?w = "w\<lparr>d_data := dict_set (KLump i) (P @ le_bytes 4 0) (d_data w)\<rparr>"
  have sd: "set_data (KLump i) [int (tell w), int (length (l_data (L i)))] w = Inr ?w"
    using i Cons.prems(2) by (simp add: set_data_def dict_get_def pack_i32_def)
  have p1: "\<forall>j\<in>set idxs. j \<noteq> GAME_LUMP \<and> dict_get ls j = Inr (L j) \<and> l_data (L j) = []
        \<and> (\<exists>p. map_of (d_loc ?w) (KLump j) = Some (p, 2))"
    using Cons.prems(1) by simp
  have p2: "pack_i32 (int (tell ?w)) = Inr P" using Cons.prems(2) by (simp add: tell_def)
  show ?case
    using i sd Cons.IH [OF p1 p2] by (simp add: file_write_Nil)
qed

lemma unpack_sint_le_bytes_4:
  "- 2147483648 \<le> v \<Longrightarrow> v < 2147483648 \<Longrightarrow> unpack_sint (le_bytes 4 v) = v"
  using unpack_sint_le_bytes_nonneg [of v 4] unpack_sint_le_bytes_neg [of v 4]
  by (cases "0 \<le> v") simp_all

lemma concat_map_replicate:
  "concat (map (\<lambda>i. replicate m x) xs) = replicate (length xs * m) x"
  by (induction xs) (simp_all add: replicate_add)

lemma unpack_sint_replicate_0: "unpack_sint (replicate n 0) = 0"
  by (simp add: unpack_sint_def le_nat_replicate_0)

lemma read_empty_bsp_file: "read None empty_bsp_file = Inl StructError"
proof -
  have fl: "empty_bsp_file
      = BSP_MAGIC @ le_bytes 4 20 @ concat (map (\<lambda>i. replicate 16 0) [0..<64])
        @ le_bytes 4 0 @ []"
    by (simp add: empty_bsp_file_def concat_map_replicate)
  have e: "\<forall>i<64. length (replicate 16 (0::byte)) = 16
      \<and> 0 \<le> unpack_sint (take 4 (replicate 16 0))
      \<and> 0 \<le> unpack_sint (take 4 (drop 4 (replicate 16 0)))"
    by (simp add: unpack_sint_replicate_0)
  show ?thesis
    unfolding read_structured [OF e length_le_bytes length_le_bytes fl]
    by (simp add: unpack_sint_replicate_0 unpack_from_def)
qed

lemma length_empty_bsp_file: "length empty_bsp_file = 1036"
  by (simp add: empty_bsp_file_def BSP_MAGIC_def length_le_bytes)

lemma length_dir_entry: "length (dir_entry f n) = 16"
  by (simp add: dir_entry_def length_le_bytes)

lemma dir_entry_fields:
  "take 4 (dir_entry f n) = le_bytes 4 f"
  "take 4 (drop 4 (dir_entry f n)) = le_bytes 4 n"
  "take 4 (drop 8 (dir_entry f n)) = le_bytes 4 0"
  "take 4 (drop 12 (dir_entry f n)) = replicate 4 0"
  by (simp_all add: dir_entry_def length_le_bytes)

lemma length_bare_bsp_file: "length (bare_bsp_file v) = 1040"
proof -
  have "map (length \<circ> (\<lambda>i. dir_entry (if i < 36 then 1036 else 1040)
                                     (if i = GAME_LUMP then 4 else 0))) [0..<64]
        = replicate 64 16"
    by (simp add: comp_def length_dir_entry map_replicate_const)
  then show ?thesis
    by (simp add: bare_bsp_file_def BSP_MAGIC_def length_le_bytes length_concat
        sum_list_replicate)
qed

lemma read_bare_bsp_file:
  assumes "- 2147483648 \<le> v" "v < 2147483648"
  shows "read None (bare_bsp_file v) =
     Inr (empty_lumps (case VERSIONS v of Some m \<Rightarrow> VEnum m | None \<Rightarrow> VInt v))"
proof -
  let ?e = "\<lambda>i. dir_entry (if i < 36 then 1036 else 1040) (if i = GAME_LUMP then 4 else 0)"
  let ?dir = "concat (map ?e [0..<64])"
  have fl: "bare_bsp_file v = BSP_MAGIC @ le_bytes 4 v @ ?dir @ le_bytes 4 0 @ le_bytes 4 0"
    by (simp add: bare_bsp_file_def)
  have e: "\<forall>i<64. length (?e i) = 16 \<and> 0 \<le> unpack_sint (take 4 (?e i))
      \<and> 0 \<le> unpack_sint (take 4 (drop 4 (?e i)))"
    by (simp add: length_dir_entry dir_entry_fields unpack_sint_le_bytes_4)
  have dirlen: "length ?dir = 1024"
  proof -
    have "map (length \<circ> ?e) [0..<64] = replicate 64 16"
      by (simp add: comp_def length_dir_entry map_replicate_const)
    then show ?thesis by (simp add: length_concat sum_list_replicate)
  qed
  have gdata: "take 4 (drop 1036 (bare_bsp_file v)) = le_bytes 4 0"
    by (simp add: fl BSP_MAGIC_def length_le_bytes dirlen)
  show ?thesis
    unfolding read_structured [OF e length_le_bytes length_le_bytes fl]
    unfolding fl [symmetric]
    by (simp add: dir_entry_fields unpack_sint_le_bytes_4 assms GAME_LUMP_def gdata
        unpack_from_def length_le_bytes empty_lumps_def Lump_def
        split: option.splits)
qed

lemma LUMP_WRITE_ORDER_split:
  "LUMP_WRITE_ORDER = [0..<35] @ GAME_LUMP # ([36..<40] @ [41..<64] @ [40])"
  unfolding LUMP_WRITE_ORDER_def BSP_LUMPS_def PAKFILE_def GAME_LUMP_def
  by code_simp

lemma Lump_sel:
  "l_type (Lump t v d) = t" "l_version (Lump t v d) = v" "l_ident (Lump t v d) = d"
  "l_data (Lump t v d) = []"
  by (simp_all add: Lump_def)

lemma save_empty_lumps:
  assumes v: "(case ver of VEnum m \<Rightarrow> versions_value m | VInt n \<Rightarrow> n) = v"
    and lo: "- 2147483648 \<le> v" and hi: "v < 2147483648"
  shows "save (empty_lumps ver) = Inr (bare_bsp_file v)"
proof -
  let ?L = "\<lambda>i. Lump i 0 (replicate 4 0)"
  let ?ls = "map (\<lambda>i. (i, ?L i)) [0..<64]"
  let ?h = "\<lambda>i::nat. replicate 8 (0::byte) @ le_bytes 4 0 @ pack_4s (replicate 4 0)"
  let ?H = "concat (map ?h [0..<64])"
  let ?w0 = "\<lparr> out = BSP_MAGIC @ le_bytes 4 v, d_loc = [], d_data = [] \<rparr>"
  let ?loc = "map (\<lambda>i. (KLump i, (8 + 16 * i, 2::nat))) [0..<64]"
  have pv: "(case version (empty_lumps ver) of
              None \<Rightarrow> Inl StructError
            | Some (VEnum m) \<Rightarrow> pack_i32 (versions_value m)
            | Some (VInt n) \<Rightarrow> pack_i32 n) = Inr (le_bytes 4 v)"
    using v lo hi by (cases ver) (auto simp: empty_lumps_def pack_i32_def)
  have p0: "pack_i32 0 = Inr (le_bytes 4 0)" by (simp add: pack_i32_def)
  have get: "i < 64 \<Longrightarrow> dict_get ?ls i = Inr (?L i)" for i
    by (rule dict_get_map_key) simp
  have tell0: "tell ?w0 = 8" by (simp add: tell_def BSP_MAGIC_def length_le_bytes)
  have hd: "write_headers ?ls BSP_LUMPS ?w0
      = Inr \<lparr> out = BSP_MAGIC @ le_bytes 4 v @ ?H, d_loc = ?loc, d_data = [] \<rparr>"
    unfolding BSP_LUMPS_def
    by (subst write_headers_upt [where L = ?L and V = "\<lambda>i. le_bytes 4 0"])
      (simp_all add: get Lump_sel p0 tell0)
  let ?w1 = "\<lparr> out = BSP_MAGIC @ le_bytes 4 v @ ?H @ le_bytes 4 0, d_loc = ?loc,
               d_data = [] \<rparr>"
  have Hlen: "length ?H = 1024"
  proof -
    have "map (length \<circ> ?h) [0..<64] = replicate 64 16"
      by (simp add: comp_def length_le_bytes length_pack_4s map_replicate_const)
    then show ?thesis by (simp add: length_concat sum_list_replicate)
  qed
  have tell1: "tell ?w1 = 1036"
    by (simp add: tell_def BSP_MAGIC_def length_le_bytes Hlen)
  have loc: "i < 64 \<Longrightarrow> map_of ?loc (KLump i) = Some (8 + 16 * i, 2)" for i
  proof -
    assume i: "i < 64"
    have "map_of ?loc (KLump i)
          = map_of (map (\<lambda>k. (k, (8 + 16 * (case k of KLump j \<Rightarrow> j | _ \<Rightarrow> 0), 2::nat)))
                        (map KLump [0..<64])) (KLump i)"
      by (simp add: comp_def)
    also have "\<dots> = Some (8 + 16 * i, 2)"
      using i by (simp only: map_of_map_key) simp
    finally show ?thesis .
  qed
  let ?d1 = "foldl (\<lambda>d i. dict_set (KLump i) (le_bytes 4 1036 @ le_bytes 4 0) d) [] [0..<35]"
  have part1: "write_lumps ?ls [] [0..<35] ?w1 = Inr (?w1\<lparr>d_data := ?d1\<rparr>)"
    by (subst write_lumps_empty [where L = ?L and P = "le_bytes 4 1036"])
      (simp_all add: get Lump_sel GAME_LUMP_def loc tell1 pack_i32_def)
  let ?w2 = "?w1\<lparr>d_data := ?d1\<rparr>"
  let ?w3 = "\<lparr> out = BSP_MAGIC @ le_bytes 4 v @ ?H @ le_bytes 4 0 @ le_bytes 4 0,
               d_loc = ?loc,
               d_data = dict_set (KLump GAME_LUMP) (le_bytes 4 1036 @ le_bytes 4 4) ?d1 \<rparr>"
  let ?rest = "[36..<40] @ [41..<64] @ [40]"
  have tell3: "tell ?w3 = 1040"
    by (simp add: tell_def BSP_MAGIC_def length_le_bytes Hlen)
  have game: "write_lumps ?ls [] (GAME_LUMP # ?rest) ?w2 = write_lumps ?ls [] ?rest ?w3"
    using get [of GAME_LUMP] loc [of GAME_LUMP]
    by (simp add: GAME_LUMP_def Let_def pack_i32_def set_data_def dict_get_def
        file_write_def tell_def BSP_MAGIC_def length_le_bytes Hlen)
  let ?d3 = "foldl (\<lambda>d i. dict_set (KLump i) (le_bytes 4 1040 @ le_bytes 4 0) d)
                   (d_data ?w3) ?rest"
  have part3: "write_lumps ?ls [] ?rest ?w3 = Inr (?w3\<lparr>d_data := ?d3\<rparr>)"
    by (subst write_lumps_empty [where L = ?L and P = "le_bytes 4 1040"])
      (auto simp: get Lump_sel GAME_LUMP_def loc pack_i32_def tell_def BSP_MAGIC_def
         length_le_bytes Hlen)
  define d3 where "d3 = ?d3"
  have lumps: "write_lumps ?ls [] LUMP_WRITE_ORDER ?w1 = Inr (?w3\<lparr>d_data := d3\<rparr>)"
    unfolding LUMP_WRITE_ORDER_split d3_def
    unfolding write_lumps_append [of ?ls "[]" "[0..<35]" "GAME_LUMP # ?rest" ?w1]
    unfolding part1 sum.case game part3 ..
  let ?pt = "\<lambda>i. le_bytes 4 (if i < 36 then 1036 else 1040)
                  @ le_bytes 4 (if i = GAME_LUMP then 4 else 0)"
  have inj: "(KLump j \<in> KLump ` S) = (j \<in> S)" for j S by auto
  have rest_mem: "(j \<in> set ?rest) = (36 \<le> j \<and> j < 64)" for j
  proof -
    have "(j \<in> set ?rest) = ((36 \<le> j \<and> j < 40) \<or> (41 \<le> j \<and> j < 64) \<or> j = 40)"
      by (simp only: set_append set_upt Un_iff atLeastLessThan_iff list.set insert_iff
          empty_iff simp_thms)
    also have "\<dots> = (36 \<le> j \<and> j < 64)" by arith
    finally show ?thesis .
  qed
  have first_mem: "(j \<in> set [0..<35]) = (j < 35)" for j
    by (simp only: set_upt atLeastLessThan_iff) simp
  have dat: "i < 64 \<Longrightarrow> map_of d3 (KLump i) = Some (?pt i)" for i
  proof -
    assume i: "i < 64"
    have m: "map_of d3 (KLump i)
        = (if 36 \<le> i \<and> i < 64 then Some (le_bytes 4 1040 @ le_bytes 4 0)
           else if i = GAME_LUMP then Some (le_bytes 4 1036 @ le_bytes 4 4)
           else if i < 35 then Some (le_bytes 4 1036 @ le_bytes 4 0) else None)"
      unfolding d3_def
      by (simp only: map_of_foldl_dict_set map_of_dict_set inj rest_mem first_mem
          writer.simps defer_key.inject map_of.simps)
    show ?thesis
      unfolding m using i by (auto simp: GAME_LUMP_def)
  qed
  have dw: "defer_write ?loc d3
      (BSP_MAGIC @ le_bytes 4 v @ ?H @ le_bytes 4 0 @ le_bytes 4 0)
      = Inr ((BSP_MAGIC @ le_bytes 4 v)
             @ concat (map (\<lambda>i. ?pt i @ drop 8 (?h i)) [0..<64])
             @ le_bytes 4 0 @ le_bytes 4 0)"
    using defer_write_upt [where a = 0 and b = 64 and h = ?h and dat = d3 and pt = ?pt
        and pre = "BSP_MAGIC @ le_bytes 4 v" and fmt = 2
        and post = "le_bytes 4 0 @ le_bytes 4 0"]
    by (simp add: dat length_le_bytes length_pack_4s BSP_MAGIC_def)
  show ?thesis
    unfolding save_def Let_def pv
    apply (simp add: empty_lumps_def hd p0 file_write_def lumps dw Lump_sel)
    apply (simp add: bare_bsp_file_def dir_entry_def pack_4s_def)
    done
qed

text \<open>
  Claim C1 describes a file of the magic, version 20, 64 directory entries of 16 zero
  bytes and the map revision 0, and gives it 400 bytes. That file has 1036 bytes, and
  \<open>read\<close> fails on it: the game lump of an all-zero directory is empty, and the count
  of the game lumps cannot be unpacked from no data.
\<close>

theorem empty_bsp_file_counterexample:
  "length empty_bsp_file = 1036 \<and> read None empty_bsp_file = Inl StructError"
  by (simp add: length_empty_bsp_file read_empty_bsp_file)

text \<open>
  Claim C1, amended. The file of the magic, version 20, 64 all-zero directory entries
  and the map revision 0 has 1036 bytes, and \<open>read\<close> fails on it. The file of 1040
  bytes that carries, after the header of version 20, the four bytes of a game lump
  count 0, and whose directory gives the game lump these four bytes, is read as a BSP of
  version 20 with 64 lumps of empty data and no game lump; saving that BSP writes the
  same 1040 bytes.
\<close>

theorem bare_bsp_file_round_trip:
  "length empty_bsp_file = 1036
   \<and> read None empty_bsp_file = Inl StructError
   \<and> length (bare_bsp_file 20) = 1040
   \<and> read None (bare_bsp_file 20) = Inr (empty_lumps (VEnum VER_20))
   \<and> map (\<lambda>p. l_data (snd p)) (lumps (empty_lumps (VEnum VER_20))) = replicate 64 []
   \<and> game_lumps (empty_lumps (VEnum VER_20)) = []
   \<and> save (empty_lumps (VEnum VER_20)) = Inr (bare_bsp_file 20)"
proof -
  have r: "read None (bare_bsp_file 20) = Inr (empty_lumps (VEnum VER_20))"
    using read_bare_bsp_file [of 20] by (simp add: VERSIONS_def)
  have s: "save (empty_lumps (VEnum VER_20)) = Inr (bare_bsp_file 20)"
    by (rule save_empty_lumps) simp_all
  have d: "map (\<lambda>p. l_data (snd p)) (lumps (empty_lumps (VEnum VER_20))) = replicate 64 []"
    by (simp add: empty_lumps_def Lump_sel comp_def map_replicate_const)
  show ?thesis
    by (simp only: length_empty_bsp_file read_empty_bsp_file length_bare_bsp_file r s d
        simp_thms)
      (simp add: empty_lumps_def)
qed

text \<open>
  Claim C10 at a file that \<open>read\<close> accepts: the file without any data, with the
  version 99.
\<close>

theorem unknown_version_vis_tree_fails_witness:
  "read None (bare_bsp_file 99) = Inr (empty_lumps (VInt 99))
   \<and> VERSIONS (unpack_sint (drop 4 (take 8 (bare_bsp_file 99)))) = None
   \<and> version (empty_lumps (VInt 99)) = Some (VInt 99)
   \<and> (\<exists>e. vis_tree (empty_lumps (VInt 99)) = Inl e)
   \<and> (\<forall>l. vis_tree (empty_lumps (VInt 99)\<lparr>lumps := dict_set LEAFS l (lumps (empty_lumps (VInt 99)))\<rparr>)
          = vis_tree (empty_lumps (VInt 99)))"
proof -
  have r: "read None (bare_bsp_file 99) = Inr (empty_lumps (VInt 99))"
    using read_bare_bsp_file [of 99] by (simp add: VERSIONS_def)
  have u: "unpack_sint (drop 4 (take 8 (bare_bsp_file 99))) = 99"
    by (simp add: bare_bsp_file_def BSP_MAGIC_def length_le_bytes unpack_sint_le_bytes_4)
  have n: "VERSIONS (unpack_sint (drop 4 (take 8 (bare_bsp_file 99)))) = None"
    by (simp add: u VERSIONS_def)
  from unknown_version_vis_tree_fails [OF r n] r n show ?thesis
    by (simp add: u)
qed

lemma defer_write_append:
  "defer_write (xs @ ys) dat buf =
     (case defer_write xs dat buf of Inl e \<Rightarrow> Inl e | Inr b \<Rightarrow> defer_write ys dat b)"
  by (induction xs arbitrary: buf) (auto split: option.splits)

lemma concat_offs:
  "x \<in> set xs \<Longrightarrow>
   take (length (f x)) (drop (offset_of (\<lambda>y. length (f y)) xs (length pre) x)
                             (pre @ concat (map f xs) @ post)) = f x"
proof (induction xs arbitrary: pre)
  case Nil
  then show ?case by simp
next
  case (Cons y ys)
  show ?case
  proof (cases "x = y")
    case True
    then show ?thesis by simp
  next
    case False
    with Cons.prems have "x \<in> set ys" by simp
    from Cons.IH [OF this, of "pre @ f y"] False show ?thesis by simp
  qed
qed

lemma offs_le: "offset_of sz xs start x \<le> start + sum_list (map sz xs)"
proof (induction xs arbitrary: start)
  case Nil
  show ?case by simp
next
  case (Cons y ys)
  from Cons.IH [of "start + sz y"] show ?case by (auto simp: add.assoc)
qed

lemma offs_mem_le: "x \<in> set xs \<Longrightarrow> offset_of sz xs start x + sz x \<le> start + sum_list (map sz xs)"
proof (induction xs arbitrary: start)
  case Nil
  then show ?case by simp
next
  case (Cons y ys)
  show ?case
  proof (cases "x = y")
    case True
    then show ?thesis by simp
  next
    case False
    with Cons.prems have "x \<in> set ys" by simp
    from Cons.IH [OF this, of "start + sz y"] False show ?thesis by (simp add: add.assoc)
  qed
qed

lemma offs_ge: "start \<le> offset_of sz xs start x"
proof (induction xs arbitrary: start)
  case Nil
  show ?case by simp
next
  case (Cons y ys)
  from Cons.IH [of "start + sz y"] show ?case by auto
qed

lemma write_lumps_normal:
  assumes "\<forall>i\<in>set idxs. i \<noteq> GAME_LUMP \<and> dict_get ls i = Inr (L i)
              \<and> (\<exists>p. map_of (d_loc w) (KLump i) = Some (p, 2))"
    and "distinct idxs"
    and "int (tell w) + int (sum_list (map (\<lambda>i. length (l_data (L i))) idxs)) < 2147483648"
  shows "\<exists>w'. write_lumps ls gls idxs w = Inr w'
     \<and> out w' = out w @ concat (map (\<lambda>i. l_data (L i)) idxs)
     \<and> d_loc w' = d_loc w
     \<and> (\<forall>i\<in>set idxs. map_of (d_data w') (KLump i)
            = Some (le_bytes 4 (int (offset_of (\<lambda>i. length (l_data (L i))) idxs (tell w) i))
                    @ le_bytes 4 (int (length (l_data (L i))))))
     \<and> (\<forall>k. k \<notin> KLump ` set idxs \<longrightarrow> map_of (d_data w') k = map_of (d_data w) k)"
  using assms
proof (induction idxs arbitrary: w)
  case Nil
  show ?case by simp
next
  case (Cons i idxs)
  let ?sz = "\<lambda>i. length (l_data (L i))"
  from Cons.prems(1) obtain p where i: "i \<noteq> GAME_LUMP" "dict_get ls i = Inr (L i)"
    "map_of (d_loc w) (KLump i) = Some (p, 2)" by auto
  from Cons.prems(2) have ni: "i \<notin> set idxs" and di: "distinct idxs" by simp_all
  let ?b = "le_bytes 4 (int (tell w)) @ le_bytes 4 (int (?sz i))"
  let ?w1 = "w\<lparr>d_data := dict_set (KLump i) ?b (d_data w)\<rparr>"
  let ?w2 = "file_write (l_data (L i)) ?w1"
  have sd: "set_data (KLump i) [int (tell w), int (?sz i)] w = Inr ?w1"
    using i(3) Cons.prems(3) by (simp add: set_data_def dict_get_def pack_i32_def)
  have step: "write_lumps ls gls (i # idxs) w = write_lumps ls gls idxs ?w2"
    using i(1) by (simp add: i(2) sd)
  have t2: "tell ?w2 = tell w + ?sz i" by (simp add: tell_def file_write_def)
  have p1: "\<forall>j\<in>set idxs. j \<noteq> GAME_LUMP \<and> dict_get ls j = Inr (L j)
              \<and> (\<exists>p. map_of (d_loc ?w2) (KLump j) = Some (p, 2))"
    using Cons.prems(1) by (simp add: file_write_def)
  have p3: "int (tell ?w2) + int (sum_list (map ?sz idxs)) < 2147483648"
    using Cons.prems(3) by (simp add: t2)
  from Cons.IH [OF p1 di p3] obtain w' where
    w: "write_lumps ls gls idxs ?w2 = Inr w'"
    and o: "out w' = out ?w2 @ concat (map (\<lambda>i. l_data (L i)) idxs)"
    and l: "d_loc w' = d_loc ?w2"
    and d: "\<forall>j\<in>set idxs. map_of (d_data w') (KLump j)
            = Some (le_bytes 4 (int (offset_of ?sz idxs (tell ?w2) j)) @ le_bytes 4 (int (?sz j)))"
    and e: "\<forall>k. k \<notin> KLump ` set idxs \<longrightarrow> map_of (d_data w') k = map_of (d_data ?w2) k"
    by blast
  have "map_of (d_data w') (KLump i) = map_of (d_data ?w2) (KLump i)"
    using e ni by auto
  then have di': "map_of (d_data w') (KLump i) = Some ?b"
    by (simp add: file_write_def map_of_dict_set)
  have dj: "\<forall>j\<in>set (i # idxs). map_of (d_data w') (KLump j)
      = Some (le_bytes 4 (int (offset_of ?sz (i # idxs) (tell w) j)) @ le_bytes 4 (int (?sz j)))"
    using di' d ni by (auto simp: t2)
  have ek: "\<forall>k. k \<notin> KLump ` set (i # idxs) \<longrightarrow> map_of (d_data w') k = map_of (d_data w) k"
    using e by (auto simp: file_write_def map_of_dict_set)
  from w o l dj ek show ?case
    unfolding step by (simp add: file_write_def)
qed

lemma write_game_dir_list:
  assumes "\<forall>g\<in>set gs. length (g_id g) = 4 \<and> 0 \<le> g_flags g \<and> g_flags g < 65536
              \<and> 0 \<le> g_version g \<and> g_version g < 65536
              \<and> int (length (g_data g)) < 2147483648
              \<and> KGame (g_id g) \<notin> fst ` set (d_loc w)"
    and "distinct (map g_id gs)"
  shows "write_game_dir gs w =
     Inr (w\<lparr>out := out w @ concat (map (\<lambda>g. (rev (g_id g) @ le_bytes 2 (g_flags g)
                                              @ le_bytes 2 (g_version g))
                                            @ replicate 4 0
                                            @ le_bytes 4 (int (length (g_data g)))) gs),
            d_loc := d_loc w @ game_locs (tell w) gs\<rparr>)"
  using assms
proof (induction gs arbitrary: w)
  case Nil
  show ?case by simp
next
  case (Cons g gs)
  from Cons.prems(1) have g: "length (g_id g) = 4" "0 \<le> g_flags g" "g_flags g < 65536"
    "0 \<le> g_version g" "g_version g < 65536" "int (length (g_data g)) < 2147483648"
    "KGame (g_id g) \<notin> fst ` set (d_loc w)" by simp_all
  let ?A = "rev (g_id g) @ le_bytes 2 (g_flags g) @ le_bytes 2 (g_version g)"
  let ?n = "le_bytes 4 (int (length (g_data g)))"
  let ?w1 = "file_write ?n (defer_key_at (KGame (g_id g)) 1 True (file_write ?A w))"
  have p4: "pack_4s (rev (g_id g)) = rev (g_id g)" by (simp add: pack_4s_def g(1))
  have step: "write_game_dir (g # gs) w = write_game_dir gs ?w1"
    using g by (simp add: pack_u16_def pack_i32_def p4)
  have o1: "out ?w1 = out w @ ?A @ replicate 4 0 @ ?n"
    by (simp add: file_write_def defer_key_at_def)
  have l1: "d_loc ?w1 = d_loc w @ [(KGame (g_id g), (tell w + 8, 1))]"
    using g(7)
    by (simp add: file_write_def defer_key_at_def tell_def g(1) length_le_bytes dict_set_fresh)
  have d1: "d_data ?w1 = d_data w"
    by (simp add: file_write_def defer_key_at_def)
  have t1: "tell ?w1 = tell w + 16"
    unfolding tell_def o1 by (simp add: g(1) length_le_bytes)
  have p1: "\<forall>g'\<in>set gs. length (g_id g') = 4 \<and> 0 \<le> g_flags g' \<and> g_flags g' < 65536
              \<and> 0 \<le> g_version g' \<and> g_version g' < 65536
              \<and> int (length (g_data g')) < 2147483648
              \<and> KGame (g_id g') \<notin> fst ` set (d_loc ?w1)"
    unfolding l1 using Cons.prems by (fastforce simp: image_iff)
  from Cons.prems(2) have p2: "distinct (map g_id gs)" by simp
  have "?w1\<lparr>out := out ?w1 @ concat (map (\<lambda>g. (rev (g_id g) @ le_bytes 2 (g_flags g)
                                              @ le_bytes 2 (g_version g))
                                            @ replicate 4 0
                                            @ le_bytes 4 (int (length (g_data g)))) gs),
            d_loc := d_loc ?w1 @ game_locs (tell ?w1) gs\<rparr>
      = w\<lparr>out := out w @ concat (map (\<lambda>g. (rev (g_id g) @ le_bytes 2 (g_flags g)
                                              @ le_bytes 2 (g_version g))
                                            @ replicate 4 0
                                            @ le_bytes 4 (int (length (g_data g)))) (g # gs)),
            d_loc := d_loc w @ game_locs (tell w) (g # gs)\<rparr>"
    unfolding o1 l1 t1 by (simp add: file_write_def defer_key_at_def)
  then show ?case
    unfolding step Cons.IH [OF p1 p2] by (simp only:)
qed

lemma defer_write_game:
  "(\<forall>g\<in>set gs. length (A g) = 8 \<and> length (P g) = 4 \<and> length (B g) = 4
        \<and> map_of dat (KGame (g_id g)) = Some (P g)) \<Longrightarrow>
   defer_write (game_locs (length pre) gs) dat
       (pre @ concat (map (\<lambda>g. A g @ replicate 4 0 @ B g) gs) @ post)
     = Inr (pre @ concat (map (\<lambda>g. A g @ P g @ B g) gs) @ post)"
proof (induction gs arbitrary: pre)
  case Nil
  show ?case by simp
next
  case (Cons g gs)
  from Cons.prems have g: "length (A g) = 8" "length (P g) = 4" "length (B g) = 4"
    "map_of dat (KGame (g_id g)) = Some (P g)" by simp_all
  let ?rest = "concat (map (\<lambda>g. A g @ replicate 4 0 @ B g) gs) @ post"
  let ?pre = "pre @ A g @ P g @ B g"
  have wa: "write_at (length pre + 8) (P g) (pre @ (A g @ replicate 4 0 @ B g) @ ?rest)
      = ?pre @ ?rest"
    using write_at_here [of "replicate 4 0" "P g" 0 "pre @ A g" "B g @ ?rest"]
    by (simp add: g)
  have len: "length ?pre = length pre + 16" by (simp add: g)
  have ih: "defer_write (game_locs (length ?pre) gs) dat (?pre @ ?rest)
     = Inr (?pre @ concat (map (\<lambda>g. A g @ P g @ B g) gs) @ post)"
    using Cons.prems by (intro Cons.IH) simp
  have "defer_write (game_locs (length pre) (g # gs)) dat
       (pre @ concat (map (\<lambda>g. A g @ replicate 4 0 @ B g) (g # gs)) @ post)
     = defer_write (game_locs (length pre + 16) gs) dat (?pre @ ?rest)"
    using wa by (simp add: g)
  also have "\<dots> = Inr (?pre @ concat (map (\<lambda>g. A g @ P g @ B g) gs) @ post)"
    using ih by (simp only: len)
  finally show ?case by simp
qed

lemma write_game_data_list:
  assumes "\<forall>g\<in>set gs. \<exists>p. map_of (d_loc w) (KGame (g_id g)) = Some (p, 1)"
    and "distinct (map g_id gs)"
    and "int (tell w) + int (sum_list (map (\<lambda>g. length (g_data g)) gs)) < 2147483648"
  shows "\<exists>w'. write_game_data gs w = Inr w'
     \<and> out w' = out w @ concat (map g_data gs)
     \<and> d_loc w' = d_loc w
     \<and> (\<forall>g\<in>set gs. map_of (d_data w') (KGame (g_id g))
            = Some (le_bytes 4 (int (offset_of (\<lambda>g. length (g_data g)) gs (tell w) g))))
     \<and> (\<forall>k. k \<notin> (\<lambda>g. KGame (g_id g)) ` set gs \<longrightarrow> map_of (d_data w') k = map_of (d_data w) k)"
  using assms
proof (induction gs arbitrary: w)
  case Nil
  show ?case by simp
next
  case (Cons g gs)
  let ?sz = "\<lambda>g. length (g_data g)"
  from Cons.prems(1) obtain p where g: "map_of (d_loc w) (KGame (g_id g)) = Some (p, 1)"
    by auto
  from Cons.prems(2) have ni: "g_id g \<notin> g_id ` set gs" and di: "distinct (map g_id gs)"
    by simp_all
  let ?b = "le_bytes 4 (int (tell w))"
  let ?w1 = "w\<lparr>d_data := dict_set (KGame (g_id g)) ?b (d_data w)\<rparr>"
  let ?w2 = "file_write (g_data g) ?w1"
  have sd: "set_data (KGame (g_id g)) [int (tell w)] w = Inr ?w1"
    using g Cons.prems(3) by (simp add: set_data_def dict_get_def pack_i32_def)
  have step: "write_game_data (g # gs) w = write_game_data gs ?w2"
    by (simp add: sd)
  have t2: "tell ?w2 = tell w + ?sz g" by (simp add: tell_def file_write_def)
  have p1: "\<forall>g'\<in>set gs. \<exists>p. map_of (d_loc ?w2) (KGame (g_id g')) = Some (p, 1)"
    using Cons.prems(1) by (simp add: file_write_def)
  have p3: "int (tell ?w2) + int (sum_list (map ?sz gs)) < 2147483648"
    using Cons.prems(3) by (simp add: t2)
  from Cons.IH [OF p1 di p3] obtain w' where
    w: "write_game_data gs ?w2 = Inr w'"
    and o: "out w' = out ?w2 @ concat (map g_data gs)"
    and l: "d_loc w' = d_loc ?w2"
    and d: "\<forall>g'\<in>set gs. map_of (d_data w') (KGame (g_id g'))
            = Some (le_bytes 4 (int (offset_of ?sz gs (tell ?w2) g')))"
    and e: "\<forall>k. k \<notin> (\<lambda>g. KGame (g_id g)) ` set gs
              \<longrightarrow> map_of (d_data w') k = map_of (d_data ?w2) k"
    by blast
  have "KGame (g_id g) \<notin> (\<lambda>g. KGame (g_id g)) ` set gs" using ni by auto
  with e have "map_of (d_data w') (KGame (g_id g)) = map_of (d_data ?w2) (KGame (g_id g))"
    by blast
  then have dg: "map_of (d_data w') (KGame (g_id g)) = Some ?b"
    by (simp add: file_write_def map_of_dict_set)
  have ne: "g' \<in> set gs \<Longrightarrow> g' \<noteq> g" for g' using ni by auto
  have dj: "\<forall>g'\<in>set (g # gs). map_of (d_data w') (KGame (g_id g'))
      = Some (le_bytes 4 (int (offset_of ?sz (g # gs) (tell w) g')))"
    using dg d ne by (auto simp: t2)
  have ek: "\<forall>k. k \<notin> (\<lambda>g. KGame (g_id g)) ` set (g # gs)
              \<longrightarrow> map_of (d_data w') k = map_of (d_data w) k"
    using e by (auto simp: file_write_def map_of_dict_set)
  from w o l dj ek show ?case
    unfolding step by (simp add: file_write_def)
qed

lemma foldl_dict_set_keyed:
  "distinct (map k xs) \<Longrightarrow> (\<forall>x\<in>set xs. k x \<notin> fst ` set ls) \<Longrightarrow>
   foldl (\<lambda>d x. dict_set (k x) (v x) d) ls xs = ls @ map (\<lambda>x. (k x, v x)) xs"
proof (induction xs arbitrary: ls)
  case Nil
  show ?case by simp
next
  case (Cons x xs)
  from Cons.prems have fresh: "k x \<notin> fst ` set ls" by simp
  have "\<forall>y\<in>set xs. k y \<notin> fst ` set (ls @ [(k x, v x)])"
    using Cons.prems by (fastforce simp: image_iff)
  moreover from Cons.prems have "distinct (map k xs)" by simp
  ultimately have "foldl (\<lambda>d x. dict_set (k x) (v x) d) (ls @ [(k x, v x)]) xs
      = (ls @ [(k x, v x)]) @ map (\<lambda>x. (k x, v x)) xs"
    by (intro Cons.IH)
  then show ?case by (simp add: dict_set_fresh [OF fresh])
qed

lemma concat_nth_fixed:
  "(\<forall>x\<in>set xs. length (f x) = m) \<Longrightarrow> k < length xs \<Longrightarrow>
   take m (drop (length pre + m * k) (pre @ concat (map f xs) @ post)) = f (xs ! k)"
proof (induction xs arbitrary: pre k)
  case Nil
  then show ?case by simp
next
  case (Cons x xs)
  show ?case
  proof (cases k)
    case 0
    with Cons.prems show ?thesis by simp
  next
    case (Suc j)
    with Cons.prems have j: "j < length xs" and m: "\<forall>x\<in>set xs. length (f x) = m"
      and x: "length (f x) = m" by simp_all
    from Cons.IH [OF m j, of "pre @ f x"] Suc x show ?thesis
      by (simp add: add.assoc)
  qed
qed

lemma read_game_lumps_list:
  assumes "\<forall>g\<in>set gs. length (g_id g) = 4 \<and> 0 \<le> g_flags g \<and> g_flags g < 65536
              \<and> 0 \<le> g_version g \<and> g_version g < 65536
              \<and> int (off g) < 2147483648 \<and> int (length (g_data g)) < 2147483648
              \<and> take (length (g_data g)) (drop (off g) file) = g_data g"
  shows "read_game_lumps file
       (pre @ concat (map (\<lambda>g. (rev (g_id g) @ le_bytes 2 (g_flags g)
                                  @ le_bytes 2 (g_version g))
                                 @ le_bytes 4 (int (off g))
                                 @ le_bytes 4 (int (length (g_data g)))) gs) @ post)
       (length gs) (length pre) acc
     = Inr (foldl (\<lambda>d g. dict_set (g_id g) g d) acc gs)"
  using assms
proof (induction gs arbitrary: pre acc)
  case Nil
  show ?case by simp
next
  case (Cons g gs)
  from Cons.prems have g: "length (g_id g) = 4" "0 \<le> g_flags g" "g_flags g < 65536"
    "0 \<le> g_version g" "g_version g < 65536" "int (off g) < 2147483648"
    "int (length (g_data g)) < 2147483648"
    "take (length (g_data g)) (drop (off g) file) = g_data g" by simp_all
  let ?E = "\<lambda>g. (rev (g_id g) @ le_bytes 2 (g_flags g) @ le_bytes 2 (g_version g))
                 @ le_bytes 4 (int (off g)) @ le_bytes 4 (int (length (g_data g)))"
  let ?rest = "concat (map ?E gs) @ post"
  let ?data = "pre @ concat (map ?E (g # gs)) @ post"
  have El: "length (?E g) = 16" by (simp add: g(1) length_le_bytes)
  have data: "?data = pre @ ?E g @ ?rest" by simp
  have uf: "unpack_from 16 ?data (length pre) = Inr (?E g)"
    unfolding data unpack_from_def using El by simp
  have f: "take 4 (?E g) = rev (g_id g)"
    "take 2 (drop 4 (?E g)) = le_bytes 2 (g_flags g)"
    "take 2 (drop 6 (?E g)) = le_bytes 2 (g_version g)"
    "take 4 (drop 8 (?E g)) = le_bytes 4 (int (off g))"
    "take 4 (drop 12 (?E g)) = le_bytes 4 (int (length (g_data g)))"
    by (simp_all add: g(1) length_le_bytes)
  have u: "unpack_sint (le_bytes 4 (int (off g))) = int (off g)"
    "unpack_sint (le_bytes 4 (int (length (g_data g)))) = int (length (g_data g))"
    "unpack_uint (le_bytes 2 (g_flags g)) = g_flags g"
    "unpack_uint (le_bytes 2 (g_version g)) = g_version g"
    using g by (simp_all add: unpack_sint_le_bytes_4 unpack_uint_le_bytes)
  have rec: "\<lparr> g_id = g_id g, g_flags = g_flags g, g_version = g_version g,
              g_data = g_data g \<rparr> = g" by simp
  have step: "read_game_lumps file ?data (Suc (length gs)) (length pre) acc
      = read_game_lumps file ?data (length gs) (length pre + 16) (dict_set (g_id g) g acc)"
    by (simp only: read_game_lumps.simps uf sum.case f u seek_def file_read_def Let_def
        rev_rev_ident g(8) rec nat_int if_False)
       (simp add: g(8) rec)
  have ih: "read_game_lumps file ((pre @ ?E g) @ concat (map ?E gs) @ post)
       (length gs) (length (pre @ ?E g)) (dict_set (g_id g) g acc)
     = Inr (foldl (\<lambda>d g. dict_set (g_id g) g d) (dict_set (g_id g) g acc) gs)"
    using Cons.prems by (intro Cons.IH) simp
  have l: "length (pre @ ?E g) = length pre + 16" using El by simp
  have d: "(pre @ ?E g) @ concat (map ?E gs) @ post = ?data" by simp
  show ?case
    using ih unfolding l d by (simp only: length_Cons step foldl_Cons)
qed

lemma versions_value_VERSIONS:
  "VERSIONS (versions_value m) = Some m \<and> - 2147483648 \<le> versions_value m
   \<and> versions_value m < 2147483648"
  by (cases m) (simp_all add: VERSIONS_def)

lemma game_locs_lookup:
  "g \<in> set gs \<Longrightarrow> \<exists>p. map_of (game_locs base gs) (KGame (g_id g)) = Some (p, 1)"
  by (induction gs arbitrary: base) auto

lemma length_concat_fixed:
  "(\<forall>x\<in>set xs. length (f x) = m) \<Longrightarrow> length (concat (map f xs)) = m * length xs"
  by (induction xs) auto

lemma sum_list_mem_le: "x \<in> set xs \<Longrightarrow> (f x :: nat) \<le> sum_list (map f xs)"
  by (induction xs) auto

lemma lumps_split:
  "[0..<64] = [0..<35] @ [35] @ [36..<40] @ [40] @ [41..<64]"
  by code_simp

text \<open>
  Claim C6. Let a BSP hold its 64 lumps, in order, and any number of game lumps under
  distinct identifiers of four bytes, every version, flag and size within the range of
  its field (the data of lump 35 itself is empty, as \<open>read\<close> leaves it). Then \<open>save\<close>
  writes a file in which the directory entry of each game lump, 16 bytes for each from
  the byte after the count on, starts with the identifier reversed; and \<open>read\<close> of that
  file gives the same BSP back, every game lump under its identifier as it was in
  memory.
\<close>

theorem game_lump_id_reversed:
  fixes b :: bsp and L :: "nat \<Rightarrow> lump" and gs :: "game_lump list"
  assumes ver: "version b = Some ver"
    and can: "case ver of VEnum m \<Rightarrow> True
              | VInt n \<Rightarrow> VERSIONS n = None \<and> - 2147483648 \<le> n \<and> n < 2147483648"
    and mrev: "- 2147483648 \<le> map_revision b" "map_revision b < 2147483648"
    and ls: "lumps b = map (\<lambda>i. (i, L i)) [0..<64]"
    and Lok: "\<forall>i<64. l_type (L i) = i \<and> - 2147483648 \<le> l_version (L i)
                \<and> l_version (L i) < 2147483648 \<and> length (l_ident (L i)) = 4"
    and gl0: "l_data (L GAME_LUMP) = []"
    and gls: "game_lumps b = map (\<lambda>g. (g_id g, g)) gs"
    and dist: "distinct (map g_id gs)"
    and gok: "\<forall>g\<in>set gs. length (g_id g) = 4 \<and> 0 \<le> g_flags g \<and> g_flags g < 65536
                \<and> 0 \<le> g_version g \<and> g_version g < 65536"
    and size: "1040 + sum_list (map (\<lambda>i. length (l_data (L i))) [0..<64]) + 16 * length gs
               + sum_list (map (\<lambda>g. length (g_data g)) gs) < 2147483648"
  shows "\<exists>file. save b = Inr file \<and> read None file = Inr b
     \<and> (\<forall>k<length gs.
           field (1040 + sum_list (map (\<lambda>i. length (l_data (L i))) [0..<35]) + 16 * k) 4 file
             = rev (g_id (gs ! k)))"
proof -
  let ?sz = "\<lambda>i. length (l_data (L i))"
  let ?gsz = "\<lambda>g. length (g_data g)"
  define v where "v = (case ver of VEnum m \<Rightarrow> versions_value m | VInt n \<Rightarrow> n)"
  have v32: "- 2147483648 \<le> v \<and> v < 2147483648
      \<and> (case VERSIONS v of Some m \<Rightarrow> VEnum m | None \<Rightarrow> VInt v) = ver"
    using can versions_value_VERSIONS unfolding v_def by (cases ver) auto
  define R where "R = [36..<40] @ [41..<64] @ [40::nat]"
  define vb where "vb = le_bytes 4 v"
  define rb where "rb = le_bytes 4 (map_revision b)"
  define c where "c = le_bytes 4 (int (length gs))"
  define h where "h = (\<lambda>i. replicate 8 (0::byte) @ le_bytes 4 (l_version (L i))
                            @ pack_4s (l_ident (L i)))"
  define H where "H = concat (map h [0..<64])"
  define DA where "DA = concat (map (\<lambda>i. l_data (L i)) [0..<35])"
  define DR where "DR = concat (map (\<lambda>i. l_data (L i)) R)"
  define GD where "GD = concat (map g_data gs)"
  let ?A = "\<lambda>g. rev (g_id g) @ le_bytes 2 (g_flags g) @ le_bytes 2 (g_version g)"
  let ?B = "\<lambda>g. le_bytes 4 (int (length (g_data g)))"
  define DIR0 where "DIR0 = concat (map (\<lambda>g. ?A g @ replicate 4 0 @ ?B g) gs)"
  define gstart where "gstart = 1036 + length DA"
  define gdat where "gdat = gstart + 4 + 16 * length gs"
  define gend where "gend = gdat + length GD"
  define loc where "loc = map (\<lambda>i. (KLump i, (8 + 16 * i, 2::nat))) [0..<64]"
  have lenvb: "length vb = 4" "length rb = 4" "length c = 4"
    by (simp_all add: vb_def rb_def c_def length_le_bytes)
  have lenDA: "length DA = sum_list (map ?sz [0..<35])"
    by (simp add: DA_def length_concat comp_def)
  have lenDR: "length DR = sum_list (map ?sz R)"
    by (simp add: DR_def length_concat comp_def)
  have lenGD: "length GD = sum_list (map ?gsz gs)"
    by (simp add: GD_def length_concat comp_def)
  have lenDIR0: "length DIR0 = 16 * length gs"
    unfolding DIR0_def
    by (rule length_concat_fixed) (use gok in \<open>simp add: length_le_bytes\<close>)
  have lenH: "length H = 1024"
  proof -
    have "map (length \<circ> h) [0..<64] = replicate 64 16"
      by (simp add: h_def comp_def length_le_bytes length_pack_4s map_replicate_const)
    then show ?thesis by (simp add: H_def length_concat sum_list_replicate)
  qed
  have total: "sum_list (map ?sz [0..<64]) = length DA + length DR"
    unfolding lenDA lenDR R_def lumps_split using gl0
    by (simp add: GAME_LUMP_def del: upt_rec_numeral)
  have bound: "gend + length DR < 2147483648"
    using size unfolding total gend_def gdat_def gstart_def lenGD by simp
  have get: "i < 64 \<Longrightarrow> dict_get (lumps b) i = Inr (L i)" for i
    unfolding ls by (rule dict_get_map_key) simp
  have locL: "i < 64 \<Longrightarrow> map_of loc (KLump i) = Some (8 + 16 * i, 2)" for i
  proof -
    assume i: "i < 64"
    have "map_of loc (KLump i)
          = map_of (map (\<lambda>k. (k, (8 + 16 * (case k of KLump j \<Rightarrow> j | _ \<Rightarrow> 0), 2::nat)))
                        (map KLump [0..<64])) (KLump i)"
      by (simp add: loc_def comp_def)
    also have "\<dots> = Some (8 + 16 * i, 2)"
      using i by (simp only: map_of_map_key) simp
    finally show ?thesis .
  qed
  have locG: "map_of loc (KGame k) = None" for k
    by (simp add: loc_def map_of_eq_None_iff image_iff)
  have locfst: "KGame k \<notin> fst ` set loc" for k
    by (simp add: loc_def image_iff)
  have rest_mem: "(j \<in> set R) = (36 \<le> j \<and> j < 64)" for j
  proof -
    have "(j \<in> set R) = ((36 \<le> j \<and> j < 40) \<or> (41 \<le> j \<and> j < 64) \<or> j = 40)"
      unfolding R_def
      by (simp only: set_append set_upt Un_iff atLeastLessThan_iff list.set insert_iff
          empty_iff simp_thms)
    also have "\<dots> = (36 \<le> j \<and> j < 64)" by arith
    finally show ?thesis .
  qed
  have distR: "distinct R"
    unfolding R_def by (simp del: upt_rec_numeral)
  have order: "LUMP_WRITE_ORDER = [0..<35] @ GAME_LUMP # R"
    unfolding R_def by (rule LUMP_WRITE_ORDER_split)
  let ?w0 = "\<lparr> out = BSP_MAGIC @ vb, d_loc = [], d_data = [] \<rparr>"
  have tell0: "tell ?w0 = 8" by (simp add: tell_def BSP_MAGIC_def lenvb)
  have pv: "(case version b of
              None \<Rightarrow> Inl StructError
            | Some (VEnum m) \<Rightarrow> pack_i32 (versions_value m)
            | Some (VInt n) \<Rightarrow> pack_i32 n) = Inr vb"
    using v32 unfolding ver v_def vb_def by (cases ver) (auto simp: pack_i32_def)
  have pr: "pack_i32 (map_revision b) = Inr rb"
    using mrev by (simp add: pack_i32_def rb_def)
  have hd: "write_headers (lumps b) BSP_LUMPS ?w0
      = Inr \<lparr> out = BSP_MAGIC @ vb @ H, d_loc = loc, d_data = [] \<rparr>"
    unfolding BSP_LUMPS_def H_def h_def loc_def
    by (subst write_headers_upt [where L = L and V = "\<lambda>i. le_bytes 4 (l_version (L i))"])
      (use Lok in \<open>simp_all add: get pack_i32_def tell0\<close>)
  define w1 where "w1 = \<lparr> out = BSP_MAGIC @ vb @ H @ rb, d_loc = loc, d_data = [] \<rparr>"
  have w1: "out w1 = BSP_MAGIC @ vb @ H @ rb" "d_loc w1 = loc" "d_data w1 = []"
    "tell w1 = 1036"
    by (simp_all add: w1_def tell_def BSP_MAGIC_def lenvb lenH)
  have pA: "\<forall>i\<in>set [0..<35]. i \<noteq> GAME_LUMP \<and> dict_get (lumps b) i = Inr (L i)
              \<and> (\<exists>p. map_of (d_loc w1) (KLump i) = Some (p, 2))"
    by (simp add: GAME_LUMP_def get w1 locL)
  have bA: "int (tell w1) + int (sum_list (map ?sz [0..<35])) < 2147483648"
    using bound unfolding gend_def gdat_def gstart_def lenDA w1 by simp
  from write_lumps_normal [OF pA distinct_upt bA, of gs] obtain wA where
    wA: "write_lumps (lumps b) gs [0..<35] w1 = Inr wA"
    and oA: "out wA = out w1 @ DA"
    and lA: "d_loc wA = d_loc w1"
    and dA: "\<forall>i\<in>set [0..<35]. map_of (d_data wA) (KLump i)
            = Some (le_bytes 4 (int (offset_of ?sz [0..<35] (tell w1) i)) @ le_bytes 4 (int (?sz i)))"
    and eA: "\<forall>k. k \<notin> KLump ` set [0..<35] \<longrightarrow> map_of (d_data wA) k = map_of (d_data w1) k"
    unfolding DA_def by blast
  have tellA: "tell wA = gstart"
    by (simp add: tell_def oA w1 gstart_def BSP_MAGIC_def lenvb lenH)
  have pk: "pack_i32 (int (length gs)) = Inr c"
    using bound unfolding gend_def gdat_def c_def by (simp add: pack_i32_def)
  define wc where "wc = file_write c wA"
  have wc: "out wc = out wA @ c" "d_loc wc = loc" "d_data wc = d_data wA"
    "tell wc = gstart + 4"
    by (simp_all add: wc_def file_write_def lA w1 tell_def oA gstart_def BSP_MAGIC_def
        lenvb lenH)
  have gsz: "g \<in> set gs \<Longrightarrow> length (g_data g) \<le> length GD" for g
    unfolding lenGD by (rule sum_list_mem_le)
  have pD: "\<forall>g\<in>set gs. length (g_id g) = 4 \<and> 0 \<le> g_flags g \<and> g_flags g < 65536
              \<and> 0 \<le> g_version g \<and> g_version g < 65536
              \<and> int (length (g_data g)) < 2147483648
              \<and> KGame (g_id g) \<notin> fst ` set (d_loc wc)"
  proof
    fix g assume g: "g \<in> set gs"
    from gsz [OF g] bound have "int (length (g_data g)) < 2147483648"
      unfolding gend_def by simp
    with gok g show "length (g_id g) = 4 \<and> 0 \<le> g_flags g \<and> g_flags g < 65536
              \<and> 0 \<le> g_version g \<and> g_version g < 65536
              \<and> int (length (g_data g)) < 2147483648
              \<and> KGame (g_id g) \<notin> fst ` set (d_loc wc)"
      by (simp add: wc locfst)
  qed
  define wd where "wd = wc\<lparr>out := out wc @ DIR0, d_loc := d_loc wc @ game_locs (tell wc) gs\<rparr>"
  have gd: "write_game_dir gs wc = Inr wd"
    unfolding wd_def DIR0_def by (rule write_game_dir_list [OF pD dist])
  have wd: "out wd = out wA @ c @ DIR0" "d_loc wd = loc @ game_locs (gstart + 4) gs"
    "d_data wd = d_data wA" "tell wd = gdat"
    by (simp_all add: wd_def wc tell_def oA w1 gdat_def gstart_def BSP_MAGIC_def lenvb lenH
        lenDIR0)
  have pE: "\<forall>g\<in>set gs. \<exists>p. map_of (d_loc wd) (KGame (g_id g)) = Some (p, 1)"
  proof
    fix g assume "g \<in> set gs"
    from game_locs_lookup [OF this, of "gstart + 4"]
    show "\<exists>p. map_of (d_loc wd) (KGame (g_id g)) = Some (p, 1)"
      by (auto simp: wd map_add_def locG)
  qed
  have bE: "int (tell wd) + int (sum_list (map ?gsz gs)) < 2147483648"
    using bound unfolding wd gend_def lenGD by simp
  from write_game_data_list [OF pE dist bE] obtain we where
    gdat: "write_game_data gs wd = Inr we"
    and oE: "out we = out wd @ GD"
    and lE: "d_loc we = d_loc wd"
    and dE: "\<forall>g\<in>set gs. map_of (d_data we) (KGame (g_id g))
            = Some (le_bytes 4 (int (offset_of ?gsz gs (tell wd) g)))"
    and eE: "\<forall>k. k \<notin> (\<lambda>g. KGame (g_id g)) ` set gs
               \<longrightarrow> map_of (d_data we) k = map_of (d_data wd) k"
    unfolding GD_def by blast
  have tellE: "tell we = gend"
    using wd(4) by (simp add: tell_def oE gend_def)
  define X where "X = le_bytes 4 (int gstart) @ le_bytes 4 (int gend - int gstart)"
  define w3 where "w3 = we\<lparr>d_data := dict_set (KLump GAME_LUMP) X (d_data we)\<rparr>"
  have loc3: "i < 64 \<Longrightarrow> map_of (d_loc we) (KLump i) = Some (8 + 16 * i, 2)" for i
    by (simp add: lE wd map_add_def locL)
  have ge: "gstart \<le> gend" by (simp add: gend_def gdat_def)
  have sd: "set_data (KLump GAME_LUMP) [int gstart, int gend - int gstart] we = Inr w3"
    using bound ge loc3 [of GAME_LUMP]
    by (simp add: set_data_def dict_get_def pack_i32_def GAME_LUMP_def w3_def X_def)
  have get35: "dict_get (lumps b) GAME_LUMP = Inr (L GAME_LUMP)"
    by (rule get) (simp add: GAME_LUMP_def)
  have game: "write_lumps (lumps b) gs (GAME_LUMP # R) wA = write_lumps (lumps b) gs R w3"
    by (simp only: write_lumps.simps get35 sum.case simp_thms if_True Let_def pk gd gdat
        tellA tellE sd wc_def [symmetric])
  have w3: "out w3 = out we" "d_loc w3 = d_loc we" "tell w3 = gend"
    by (simp_all add: w3_def tell_def tellE [unfolded tell_def])
  have pR: "\<forall>i\<in>set R. i \<noteq> GAME_LUMP \<and> dict_get (lumps b) i = Inr (L i)
              \<and> (\<exists>p. map_of (d_loc w3) (KLump i) = Some (p, 2))"
    by (simp add: rest_mem GAME_LUMP_def get w3 loc3)
  have bR: "int (tell w3) + int (sum_list (map ?sz R)) < 2147483648"
    using bound unfolding w3 lenDR by simp
  from write_lumps_normal [OF pR distR bR, of gs] obtain wR where
    wR: "write_lumps (lumps b) gs R w3 = Inr wR"
    and oR: "out wR = out w3 @ DR"
    and lR: "d_loc wR = d_loc w3"
    and dR: "\<forall>i\<in>set R. map_of (d_data wR) (KLump i)
            = Some (le_bytes 4 (int (offset_of ?sz R (tell w3) i)) @ le_bytes 4 (int (?sz i)))"
    and eR: "\<forall>k. k \<notin> KLump ` set R \<longrightarrow> map_of (d_data wR) k = map_of (d_data w3) k"
    unfolding DR_def by blast
  have lumps: "write_lumps (lumps b) gs LUMP_WRITE_ORDER w1 = Inr wR"
    unfolding order write_lumps_append [of "lumps b" gs "[0..<35]" "GAME_LUMP # R" w1]
    by (simp only: wA sum.case game wR)
  have outR: "out wR = BSP_MAGIC @ vb @ H @ rb @ DA @ c @ DIR0 @ GD @ DR"
    by (simp add: oR w3 oE wd oA w1)
  have locR: "d_loc wR = loc @ game_locs (gstart + 4) gs"
    by (simp add: lR w3 lE wd)
  define pos where "pos = (\<lambda>i. if i < 35 then offset_of ?sz [0..<35] 1036 i
                                 else if i = 35 then gstart else offset_of ?sz R gend i)"
  define len where "len = (\<lambda>i. if i = 35 then gend - gstart else ?sz i)"
  define goff where "goff = offset_of ?gsz gs gdat"
  have kl: "(KLump j \<in> KLump ` S) = (j \<in> S)" for j S by auto
  have kg: "KGame k \<notin> KLump ` S" for k S by auto
  have lk: "KLump j \<notin> (\<lambda>g. KGame (g_id g)) ` S" for j S by auto
  have d3: "d_data w3 = dict_set (KLump GAME_LUMP) X (d_data we)" by (simp add: w3_def)
  have datL: "map_of (d_data wR) (KLump i)
      = Some (le_bytes 4 (int (pos i)) @ le_bytes 4 (int (len i)))" if i: "i < 64" for i
  proof -
    from i consider "i < 35" | "i = 35" | "36 \<le> i" "i < 64" by arith
    then show ?thesis
    proof cases
      case 1
      then have nR: "KLump i \<notin> KLump ` set R" by (simp add: kl rest_mem)
      have "map_of (d_data wR) (KLump i) = map_of (d_data w3) (KLump i)"
        using eR nR by blast
      also have "\<dots> = map_of (d_data we) (KLump i)"
        using 1 by (simp add: d3 map_of_dict_set GAME_LUMP_def)
      also have "\<dots> = map_of (d_data wd) (KLump i)" using eE lk by blast
      also have "\<dots> = Some (le_bytes 4 (int (offset_of ?sz [0..<35] (tell w1) i))
                              @ le_bytes 4 (int (?sz i)))"
        using dA 1 by (simp add: wd)
      finally show ?thesis using 1 by (simp add: pos_def len_def w1)
    next
      case 2
      then have nR: "KLump i \<notin> KLump ` set R" by (simp add: kl rest_mem)
      have "map_of (d_data wR) (KLump i) = map_of (d_data w3) (KLump i)"
        using eR nR by blast
      also have "\<dots> = Some X"
        using 2 by (simp add: d3 map_of_dict_set GAME_LUMP_def)
      finally show ?thesis
        using 2 ge by (simp add: pos_def len_def X_def of_nat_diff)
    next
      case 3
      then have "i \<in> set R" by (simp add: rest_mem)
      with dR have "map_of (d_data wR) (KLump i)
          = Some (le_bytes 4 (int (offset_of ?sz R (tell w3) i)) @ le_bytes 4 (int (?sz i)))"
        by blast
      then show ?thesis using 3 by (simp add: pos_def len_def w3)
    qed
  qed
  have datG: "map_of (d_data wR) (KGame (g_id g)) = Some (le_bytes 4 (int (goff g)))"
    if g: "g \<in> set gs" for g
  proof -
    have "map_of (d_data wR) (KGame (g_id g)) = map_of (d_data w3) (KGame (g_id g))"
      using eR kg by blast
    also have "\<dots> = map_of (d_data we) (KGame (g_id g))"
      by (simp add: d3 map_of_dict_set)
    also have "\<dots> = Some (le_bytes 4 (int (offset_of ?gsz gs (tell wd) g)))"
      using dE g by blast
    finally show ?thesis by (simp add: goff_def wd)
  qed
  define e where "e = (\<lambda>i. le_bytes 4 (int (pos i)) @ le_bytes 4 (int (len i))
                            @ le_bytes 4 (l_version (L i)) @ pack_4s (l_ident (L i)))"
  define D where "D = concat (map e [0..<64])"
  define GDIR where "GDIR = concat (map (\<lambda>g. ?A g @ le_bytes 4 (int (goff g)) @ ?B g) gs)"
  define fil where "fil = BSP_MAGIC @ vb @ D @ rb @ DA @ c @ GDIR @ GD @ DR"
  have lenD: "length D = 1024"
  proof -
    have "length D = 16 * length [0..<64]"
      unfolding D_def
      by (rule length_concat_fixed) (simp add: e_def length_le_bytes length_pack_4s)
    then show ?thesis by simp
  qed
  have lenGDIR: "length GDIR = 16 * length gs"
    unfolding GDIR_def
    by (rule length_concat_fixed) (use gok in \<open>simp add: length_le_bytes\<close>)
  let ?pt = "\<lambda>i. le_bytes 4 (int (pos i)) @ le_bytes 4 (int (len i))"
  have dw1: "defer_write loc (d_data wR) (BSP_MAGIC @ vb @ H @ rb @ DA @ c @ DIR0 @ GD @ DR)
      = Inr (BSP_MAGIC @ vb @ D @ rb @ DA @ c @ DIR0 @ GD @ DR)"
    using defer_write_upt [where a = 0 and b = 64 and h = h and dat = "d_data wR"
        and pt = ?pt and pre = "BSP_MAGIC @ vb" and fmt = 2
        and post = "rb @ DA @ c @ DIR0 @ GD @ DR"]
    by (simp add: datL loc_def H_def D_def e_def h_def BSP_MAGIC_def lenvb length_le_bytes
        length_pack_4s)
  have lp: "length (BSP_MAGIC @ vb @ D @ rb @ DA @ c) = gstart + 4"
    by (simp add: BSP_MAGIC_def lenvb lenD gstart_def)
  have pG: "\<forall>g\<in>set gs. length (?A g) = 8 \<and> length (le_bytes 4 (int (goff g))) = 4
        \<and> length (?B g) = 4
        \<and> map_of (d_data wR) (KGame (g_id g)) = Some (le_bytes 4 (int (goff g)))"
    using gok by (simp add: length_le_bytes datG)
  have dw2: "defer_write (game_locs (gstart + 4) gs) (d_data wR)
        (BSP_MAGIC @ vb @ D @ rb @ DA @ c @ DIR0 @ GD @ DR)
      = Inr fil"
    using defer_write_game [of gs ?A "\<lambda>g. le_bytes 4 (int (goff g))" ?B "d_data wR"
        "BSP_MAGIC @ vb @ D @ rb @ DA @ c" "GD @ DR", OF pG]
    unfolding lp DIR0_def GDIR_def fil_def by simp
  have dw: "defer_write (loc @ game_locs (gstart + 4) gs) (d_data wR)
        (BSP_MAGIC @ vb @ H @ rb @ DA @ c @ DIR0 @ GD @ DR) = Inr fil"
    by (simp only: defer_write_append dw1 sum.case dw2)
  have sv: "save b = Inr fil"
    unfolding save_def Let_def pv
    by (simp add: hd pr file_write_def lumps outR locR gls comp_def w1_def [symmetric] dw)
  have fl: "fil = BSP_MAGIC @ vb @ concat (map e [0..<64]) @ rb @ (DA @ c @ GDIR @ GD @ DR)"
    by (simp add: fil_def D_def)
  have szA: "i < 35 \<Longrightarrow> ?sz i \<le> length DA" for i
    unfolding lenDA by (rule sum_list_mem_le) simp
  have szR: "36 \<le> i \<Longrightarrow> i < 64 \<Longrightarrow> ?sz i \<le> length DR" for i
    unfolding lenDR by (rule sum_list_mem_le) (simp add: rest_mem)
  have posb: "pos i \<le> gend + length DR" if "i < 64" for i
  proof -
    have a: "offset_of ?sz [0..<35] 1036 i \<le> gstart"
      using offs_le [of ?sz "[0..<35]" 1036 i] by (simp add: gstart_def lenDA)
    have r: "offset_of ?sz R gend i \<le> gend + length DR"
      using offs_le [of ?sz R gend i] by (simp add: lenDR)
    from a r ge show ?thesis by (simp add: pos_def)
  qed
  have lenb: "len i \<le> gend + length DR" if "i < 64" for i
  proof -
    from that consider "i < 35" | "i = 35" | "36 \<le> i" "i < 64" by arith
    then show ?thesis
    proof cases
      case 1
      with szA [of i] show ?thesis by (simp add: len_def gend_def gdat_def gstart_def)
    next
      case 2
      then show ?thesis by (simp add: len_def)
    next
      case 3
      with szR [of i] show ?thesis by (simp add: len_def)
    qed
  qed
  have ef: "take 4 (e i) = le_bytes 4 (int (pos i))"
    "take 4 (drop 4 (e i)) = le_bytes 4 (int (len i))"
    "take 4 (drop 8 (e i)) = le_bytes 4 (l_version (L i))"
    "take 4 (drop 12 (e i)) = pack_4s (l_ident (L i))"
    "length (e i) = 16" for i
    by (simp_all add: e_def length_le_bytes length_pack_4s)
  have up: "unpack_sint (le_bytes 4 (int (pos i))) = int (pos i)"
    "unpack_sint (le_bytes 4 (int (len i))) = int (len i)" if "i < 64" for i
    using posb [OF that] lenb [OF that] bound by (simp_all add: unpack_sint_le_bytes_4)
  have epre: "\<forall>i<64. length (e i) = 16 \<and> 0 \<le> unpack_sint (take 4 (e i))
                    \<and> 0 \<le> unpack_sint (take 4 (drop 4 (e i)))"
    by (simp add: ef up)
  have datum: "take (len i) (drop (pos i) fil) = l_data (L i)" if i: "i < 64" "i \<noteq> 35" for i
  proof -
    from i consider "i < 35" | "36 \<le> i" "i < 64" by arith
    then show ?thesis
    proof cases
      case 1
      have l: "length (BSP_MAGIC @ vb @ D @ rb) = 1036"
        by (simp add: BSP_MAGIC_def lenvb lenD)
      from 1 have "i \<in> set [0..<35]" by simp
      from concat_offs [OF this, of "\<lambda>i. l_data (L i)" "BSP_MAGIC @ vb @ D @ rb"
          "c @ GDIR @ GD @ DR"]
      show ?thesis
        unfolding l using 1 by (simp add: pos_def len_def fil_def DA_def)
    next
      case 2
      have l: "length (BSP_MAGIC @ vb @ D @ rb @ DA @ c @ GDIR @ GD) = gend"
        by (simp add: BSP_MAGIC_def lenvb lenD lenGDIR gend_def gdat_def gstart_def)
      from 2 have "i \<in> set R" by (simp add: rest_mem)
      from concat_offs [OF this, of "\<lambda>i. l_data (L i)"
          "BSP_MAGIC @ vb @ D @ rb @ DA @ c @ GDIR @ GD" "[]"]
      show ?thesis
        unfolding l using 2 by (simp add: pos_def len_def fil_def DR_def)
    qed
  qed
  have datum35: "take (len 35) (drop (pos 35) fil) = c @ GDIR @ GD"
  proof -
    have l: "length (BSP_MAGIC @ vb @ D @ rb @ DA) = gstart"
      by (simp add: BSP_MAGIC_def lenvb lenD gstart_def)
    have m: "length (c @ GDIR @ GD) = gend - gstart"
      by (simp add: lenvb lenGDIR gend_def gdat_def)
    have "fil = (BSP_MAGIC @ vb @ D @ rb @ DA) @ (c @ GDIR @ GD) @ DR"
      by (simp add: fil_def)
    then show ?thesis
      unfolding pos_def len_def using l m by simp
  qed
  have goffb: "goff g \<le> gend" for g
    using offs_le [of ?gsz gs gdat g] by (simp add: goff_def gend_def lenGD)
  have pRd: "\<forall>g\<in>set gs. length (g_id g) = 4 \<and> 0 \<le> g_flags g \<and> g_flags g < 65536
              \<and> 0 \<le> g_version g \<and> g_version g < 65536
              \<and> int (goff g) < 2147483648 \<and> int (length (g_data g)) < 2147483648
              \<and> take (length (g_data g)) (drop (goff g) fil) = g_data g"
  proof
    fix g assume g: "g \<in> set gs"
    have l: "length (BSP_MAGIC @ vb @ D @ rb @ DA @ c @ GDIR) = gdat"
      by (simp add: BSP_MAGIC_def lenvb lenD lenGDIR gdat_def gstart_def)
    from concat_offs [OF g, of g_data "BSP_MAGIC @ vb @ D @ rb @ DA @ c @ GDIR" DR]
    have t: "take (length (g_data g)) (drop (goff g) fil) = g_data g"
      unfolding l by (simp add: goff_def fil_def GD_def)
    from gsz [OF g] bound have s: "int (length (g_data g)) < 2147483648"
      unfolding gend_def by simp
    from goffb [of g] bound have o: "int (goff g) < 2147483648" by simp
    from gok g t s o
    show "length (g_id g) = 4 \<and> 0 \<le> g_flags g \<and> g_flags g < 65536
              \<and> 0 \<le> g_version g \<and> g_version g < 65536
              \<and> int (goff g) < 2147483648 \<and> int (length (g_data g)) < 2147483648
              \<and> take (length (g_data g)) (drop (goff g) fil) = g_data g"
      by simp
  qed
  have rg: "read_game_lumps fil (c @ GDIR @ GD) (length gs) 4 []
      = Inr (map (\<lambda>g. (g_id g, g)) gs)"
  proof -
    have "read_game_lumps fil (c @ GDIR @ GD) (length gs) (length c) []
        = Inr (foldl (\<lambda>d g. dict_set (g_id g) g d) [] gs)"
      unfolding GDIR_def by (rule read_game_lumps_list [OF pRd])
    moreover have "foldl (\<lambda>d g. dict_set (g_id g) g d) [] gs = [] @ map (\<lambda>g. (g_id g, g)) gs"
      by (rule foldl_dict_set_keyed [OF dist]) simp
    ultimately show ?thesis by (simp add: lenvb)
  qed
  have cnt: "unpack_from 4 (c @ GDIR @ GD) 0 = Inr c"
    by (simp add: unpack_from_def lenvb)
  have ucnt: "nat (unpack_sint c) = length gs"
    using bound unfolding c_def gend_def gdat_def by (simp add: unpack_sint_le_bytes_4)
  have Lrec: "\<lparr> l_type = i, l_version = l_version (L i), l_ident = l_ident (L i),
               l_data = l_data (L i) \<rparr> = L i" if "i < 64" for i
    using Lok that by (cases "L i") auto
  have lumps_eq: "map (\<lambda>i. (i, \<lparr> l_type = i,
                                  l_version = unpack_sint (take 4 (drop 8 (e i))),
                                  l_ident = take 4 (drop 12 (e i)),
                                  l_data = (if i = GAME_LUMP then []
                                            else take (nat (unpack_sint (take 4 (drop 4 (e i)))))
                                              (drop (nat (unpack_sint (take 4 (e i)))) fil)) \<rparr>))
                      [0..<64]
      = lumps b"
    unfolding ls
  proof (rule map_cong [OF refl])
    fix i assume "i \<in> set [0..<64]"
    then have i: "i < 64" by simp
    have v: "unpack_sint (le_bytes 4 (l_version (L i))) = l_version (L i)"
      using Lok i by (simp add: unpack_sint_le_bytes_4)
    have p: "pack_4s (l_ident (L i)) = l_ident (L i)"
      using Lok i by (simp add: pack_4s_def)
    show "(i, \<lparr> l_type = i, l_version = unpack_sint (take 4 (drop 8 (e i))),
               l_ident = take 4 (drop 12 (e i)),
               l_data = (if i = GAME_LUMP then []
                         else take (nat (unpack_sint (take 4 (drop 4 (e i)))))
                           (drop (nat (unpack_sint (take 4 (e i)))) fil)) \<rparr>) = (i, L i)"
    proof (cases "i = 35")
      case True
      with Lrec [OF i] gl0 v p show ?thesis
        by (simp add: ef GAME_LUMP_def)
    next
      case False
      with Lrec [OF i] datum [OF i False] v p up [OF i] show ?thesis
        by (simp add: ef GAME_LUMP_def)
    qed
  qed
  have uv: "unpack_sint vb = v" "unpack_sint rb = map_revision b"
    using v32 mrev by (simp_all add: vb_def rb_def unpack_sint_le_bytes_4)
  have d35: "take (nat (unpack_sint (take 4 (drop 4 (e GAME_LUMP)))))
      (drop (nat (unpack_sint (take 4 (e GAME_LUMP)))) fil) = c @ GDIR @ GD"
    using datum35 by (simp add: ef up GAME_LUMP_def)
  have rd: "read None fil = Inr b"
    unfolding read_structured [OF epre lenvb(1) lenvb(2) fl] Let_def d35 cnt sum.case ucnt rg
      lumps_eq uv
    using v32 ver gls by simp
  have ids: "field (1040 + sum_list (map ?sz [0..<35]) + 16 * k) 4 fil = rev (g_id (gs ! k))"
    if k: "k < length gs" for k
  proof -
    let ?E = "\<lambda>g. ?A g @ le_bytes 4 (int (goff g)) @ ?B g"
    have E: "\<forall>g\<in>set gs. length (?E g) = 16"
      using gok by (simp add: length_le_bytes)
    have l: "length (BSP_MAGIC @ vb @ D @ rb @ DA @ c) = 1040 + sum_list (map ?sz [0..<35])"
      by (simp add: BSP_MAGIC_def lenvb lenD lenDA)
    from concat_nth_fixed [OF E k, of "BSP_MAGIC @ vb @ D @ rb @ DA @ c" "GD @ DR"]
    have "take 16 (drop (1040 + sum_list (map ?sz [0..<35]) + 16 * k) fil) = ?E (gs ! k)"
      unfolding l by (simp add: fil_def GDIR_def)
    then have "take 4 (take 16 (drop (1040 + sum_list (map ?sz [0..<35]) + 16 * k) fil))
        = rev (g_id (gs ! k))"
      using gok k by simp
    then show ?thesis by (simp add: field_def)
  qed
  from sv rd ids show ?thesis by blast
qed


lemma two_game_bsp_sizes:
  "sum_list (map (\<lambda>i. length (l_data (two_lumps i))) [0..<35]) = 3"
  "sum_list (map (\<lambda>i. length (l_data (two_lumps i))) [0..<64]) = 4"
  by code_simp+

text \<open>
  A run of the theorem on the BSP with two game lumps: their directory entries are at
  1043 and 1059, after the three bytes of lump 0 and the count.
\<close>

theorem game_lump_id_reversed_witness:
  "\<exists>file. save two_game_bsp = Inr file \<and> read None file = Inr two_game_bsp
     \<and> field 1043 4 file = [0x70, 0x72, 0x70, 0x73]
     \<and> field 1059 4 file = [0x70, 0x72, 0x70, 0x64]"
proof -
  let ?gs = "[sprp_lump, dprp_lump]"
  have two: "k < 2 \<Longrightarrow> k = 0 \<or> k = Suc 0" for k :: nat by arith
  have "\<exists>file. save two_game_bsp = Inr file \<and> read None file = Inr two_game_bsp
     \<and> (\<forall>k<length ?gs.
           field (1040 + sum_list (map (\<lambda>i. length (l_data (two_lumps i))) [0..<35]) + 16 * k)
             4 file = rev (g_id (?gs ! k)))"
  proof (rule game_lump_id_reversed [where ver = "VEnum VER_20"])
    show "version two_game_bsp = Some (VEnum VER_20)" by (simp add: two_game_bsp_def)
    show "case VEnum VER_20 of VEnum m \<Rightarrow> True
          | VInt n \<Rightarrow> VERSIONS n = None \<and> - 2147483648 \<le> n \<and> n < 2147483648" by simp
    show "- 2147483648 \<le> map_revision two_game_bsp" "map_revision two_game_bsp < 2147483648"
      by (simp_all add: two_game_bsp_def)
    show "lumps two_game_bsp = map (\<lambda>i. (i, two_lumps i)) [0..<64]"
      by (simp add: two_game_bsp_def)
    show "\<forall>i<64. l_type (two_lumps i) = i \<and> - 2147483648 \<le> l_version (two_lumps i)
                \<and> l_version (two_lumps i) < 2147483648 \<and> length (l_ident (two_lumps i)) = 4"
      by (simp add: two_lumps_def)
    show "l_data (two_lumps GAME_LUMP) = []" by (simp add: two_lumps_def GAME_LUMP_def)
    show "game_lumps two_game_bsp = map (\<lambda>g. (g_id g, g)) ?gs"
      by (simp add: two_game_bsp_def)
    show "distinct (map g_id ?gs)" by (simp add: sprp_lump_def dprp_lump_def)
    show "\<forall>g\<in>set ?gs. length (g_id g) = 4 \<and> 0 \<le> g_flags g \<and> g_flags g < 65536
                \<and> 0 \<le> g_version g \<and> g_version g < 65536"
      by (simp add: sprp_lump_def dprp_lump_def)
    show "1040 + sum_list (map (\<lambda>i. length (l_data (two_lumps i))) [0..<64]) + 16 * length ?gs
               + sum_list (map (\<lambda>g. length (g_data g)) ?gs) < 2147483648"
      by (simp add: two_game_bsp_sizes sprp_lump_def dprp_lump_def)
  qed
  then obtain fil where sv: "save two_game_bsp = Inr fil"
    and rd: "read None fil = Inr two_game_bsp"
    and ids: "\<forall>k<2. field (1043 + 16 * k) 4 fil = rev (g_id (?gs ! k))"
    by (auto simp: two_game_bsp_sizes)
  have "field 1043 4 fil = [0x70, 0x72, 0x70, 0x73]"
    using ids [rule_format, of 0] by (simp add: sprp_lump_def)
  moreover have "field 1059 4 fil = [0x70, 0x72, 0x70, 0x64]"
    using ids [rule_format, of "Suc 0"] by (simp add: dprp_lump_def)
  ultimately show ?thesis using sv rd by blast
qed

end
